theory Spec2Isabelle
  imports Main
begin

section \<open>Placeholder replace and restore: the data model\<close>

text \<open>
  The plugin exists in two evolutions. The offset-tracked, font-preserving one (the file
  whose regular expression is \<^verbatim>\<open>/@([a-zA-Z0-9_\-\/]+(?:\.[a-zA-Z0-9_\-\/]+)*)/g\<close>) is
  embedded under the source's own names; the whole-text one of \<^verbatim>\<open>src/code.js\<close>
  carries the suffix \<open>_wt\<close>.

  A JavaScript string is a list of code units; \<^typ>\<open>char\<close> stands for one code unit, and
  every offset counts code units. JavaScript numbers that are offsets found by the regular
  expression are naturals; the restore records hold integers, since they are computed
  with a running delta that can be negative and are read back from JSON.
\<close>

datatype font = FontName (family: string) (style: string)

text \<open>A text element's content: every code unit with the font of its run.\<close>

type_synonym styled = "(char \<times> font) list"

text \<open>The objects pushed by the scanning loop: \<^verbatim>\<open>{ key, start, len, text }\<close>.\<close>

record pmatch =
  mkey :: string
  mstart :: nat
  mlen :: nat
  mtext :: string

text \<open>The objects pushed to \<^verbatim>\<open>replacements\<close>: \<^verbatim>\<open>{ start, len, originalText, originalFont }\<close>.\<close>

record restore_record =
  rep_start :: int
  rep_len :: int
  rep_originalText :: string
  rep_originalFont :: "font option"

text \<open>The objects pushed to \<^verbatim>\<open>ops\<close>: \<^verbatim>\<open>{ start, removeLen, insertText, isIcon, originalFont }\<close>.\<close>

record repl_op =
  op_start :: nat
  removeLen :: nat
  insertText :: string
  isIcon :: bool
  op_originalFont :: "font option"

text \<open>
  The payload of \<^verbatim>\<open>saveNodeBackup\<close>, as \<^verbatim>\<open>JSON.parse\<close> gives it back. A field
  that a payload may lack (\<^verbatim>\<open>original\<close>, \<^verbatim>\<open>replacements\<close>) is an option: the whole-text
  evolution writes no \<^verbatim>\<open>replacements\<close>. The snapshot object is the finite map of its own
  properties, which is what \<^verbatim>\<open>JSON.stringify\<close> writes and \<^verbatim>\<open>JSON.parse\<close> gives back.
\<close>

record backup =
  original :: "string option"
  snapshot :: "string \<rightharpoonup> string"
  collection :: string
  replacements :: "restore_record list option"
  ts :: int

text \<open>
  A text node: its styled content, the font an empty node carries, and the plugin data
  stored under \<^verbatim>\<open>PLUGIN_DATA_KEY\<close>. \<open>None\<close> is the empty string that
  \<^verbatim>\<open>clearNodeBackup\<close> writes (and a node never written to); \<open>Some b\<close> is the
  JSON text of the payload \<open>b\<close>.
\<close>

record text_node =
  content :: styled
  baseFont :: font
  pluginData :: "backup option"

definition characters :: "text_node \<Rightarrow> string" where
  "characters node = map fst (content node)"

text \<open>
  Values a variable can hold, as far as the code tells them apart: a string, a falsy value
  that is not a string (\<^verbatim>\<open>undefined\<close>, \<^verbatim>\<open>null\<close>, \<^verbatim>\<open>0\<close>, \<^verbatim>\<open>false\<close>), and a truthy
  value that is not a string, with the text \<^verbatim>\<open>String(v)\<close> gives for it.
\<close>

datatype jsval = JString string | JFalsy | JTruthy string

definition truthy :: "jsval \<Rightarrow> bool" where
  "truthy v = (case v of JString s \<Rightarrow> s \<noteq> [] | JFalsy \<Rightarrow> False | JTruthy _ \<Rightarrow> True)"

text \<open>\<^verbatim>\<open>String(v)\<close> of a value that is a string or truthy.\<close>

definition toString :: "jsval \<Rightarrow> string" where
  "toString v = (case v of JString s \<Rightarrow> s | JFalsy \<Rightarrow> [] | JTruthy s \<Rightarrow> s)"

text \<open>What a call does: it throws, or it returns.\<close>

datatype 'a outcome = Throws | Returns (returned: 'a)

text \<open>
  A variable of the host: \<^verbatim>\<open>resolveForConsumer\<close> is \<open>None\<close> when
  \<^verbatim>\<open>typeof variable.resolveForConsumer\<close> is not \<^verbatim>\<open>"function"\<close>; called on a consumer
  it throws or returns an object whose \<^verbatim>\<open>value\<close> is given (a result that has no
  \<^verbatim>\<open>value\<close> to read makes the caller throw, and counts as a throw). \<^verbatim>\<open>valuesByMode\<close>
  lists the modes in key order.
\<close>

record variable =
  var_name :: string
  variableCollectionId :: nat
  resolveForConsumer :: "(text_node \<Rightarrow> jsval outcome) option"
  valuesByMode :: "(string \<times> jsval) list"

record var_collection =
  coll_id :: nat
  coll_name :: string

datatype scene_node = TextNode text_node | OtherNode

text \<open>
  The host (\<^verbatim>\<open>figma\<close>): the local collections, the local variables of type STRING, the
  fonts \<^verbatim>\<open>loadFontAsync\<close> can load and those already loaded, the clock, the nodes of the
  document by id and the ids of the current selection.
\<close>

record host =
  collections :: "var_collection list"
  stringVariables :: "variable list"
  availableFonts :: "font set"
  loadedFonts :: "font set"
  now :: int
  nodes :: "string \<rightharpoonup> scene_node"
  selection :: "string list"

text \<open>The plugin's runtime state (the \<^verbatim>\<open>let\<close> variables of the module).\<close>

record plugin_state =
  featureEnabled :: bool
  chosenCollection :: string
  iconFontFamily :: string
  iconFontStyle :: string
  lastSelectedNodeId :: "string option"
  processing :: bool

definition DEFAULT_COLLECTION_NAME :: string where
  "DEFAULT_COLLECTION_NAME = ''Keywords''"

section \<open>The placeholder scanner\<close>

text \<open>The character class \<^verbatim>\<open>[a-zA-Z0-9_\-\/]\<close>.\<close>

definition isKeyChar :: "char \<Rightarrow> bool" where
  "isKeyChar c \<longleftrightarrow>
     (let n = (of_char c :: nat) in
      (97 \<le> n \<and> n \<le> 122) \<or> (65 \<le> n \<and> n \<le> 90) \<or> (48 \<le> n \<and> n \<le> 57)
      \<or> c = CHR ''_'' \<or> c = CHR ''-'' \<or> c = CHR ''/'')"

text \<open>The character class \<^verbatim>\<open>[a-zA-Z0-9_.\-\/]\<close> of \<^verbatim>\<open>src/code.js\<close>.\<close>

definition isKeyChar_wt :: "char \<Rightarrow> bool" where
  "isKeyChar_wt c \<longleftrightarrow> isKeyChar c \<or> c = CHR ''.''"

text \<open>
  The length matched by \<^verbatim>\<open>(?:\.[a-zA-Z0-9_\-\/]+)*\<close> at the head of a string. Each
  round takes a dot and the longest run of class characters after it, and the star stops
  at the first dot that no class character follows. The class holds neither the dot nor
  \<^verbatim>\<open>@\<close>, so the greedy choice is the only one the engine ever takes.
\<close>

function dotSegments :: "string \<Rightarrow> nat" where
  "dotSegments [] = 0"
| "dotSegments (c # r) =
     (if c = CHR ''.'' \<and> takeWhile isKeyChar r \<noteq> []
      then Suc (length (takeWhile isKeyChar r)) + dotSegments (dropWhile isKeyChar r)
      else 0)"
  by pat_completeness auto
termination
  by (relation "measure length") (auto simp: less_Suc_eq_le length_dropWhile_le)

text \<open>
  The length of the capture group \<^verbatim>\<open>([a-zA-Z0-9_\-\/]+(?:\.[a-zA-Z0-9_\-\/]+)*)\<close> at
  the head of a string, \<open>0\<close> when the group does not match there.
\<close>

definition keyLength :: "string \<Rightarrow> nat" where
  "keyLength s =
     (if takeWhile isKeyChar s = [] then 0
      else length (takeWhile isKeyChar s) + dotSegments (dropWhile isKeyChar s))"

text \<open>The same for the group \<^verbatim>\<open>([a-zA-Z0-9_.\-\/]+)\<close> of \<^verbatim>\<open>src/code.js\<close>.\<close>

definition keyLength_wt :: "string \<Rightarrow> nat" where
  "keyLength_wt s = length (takeWhile isKeyChar_wt s)"

text \<open>
  The loop \<^verbatim>\<open>while ((m = PLACEHOLDER_REGEX.exec(text)) !== null) matches.push(...)\<close>.
  The expression is global, so each \<^verbatim>\<open>exec\<close> resumes at \<^verbatim>\<open>lastIndex\<close>, the end of
  the previous match, and the loop leaves \<^verbatim>\<open>lastIndex\<close> at \<open>0\<close>. The first argument is
  the length function of the capture group, the second the offset of the rest of the
  text.
\<close>

fun execAll :: "(string \<Rightarrow> nat) \<Rightarrow> nat \<Rightarrow> string \<Rightarrow> pmatch list" where
  "execAll kl pos [] = []"
| "execAll kl pos (c # r) =
     (if c = CHR ''@'' \<and> 0 < kl r
      then \<lparr>mkey = take (kl r) r, mstart = pos, mlen = Suc (kl r), mtext = c # take (kl r) r\<rparr>
           # execAll kl (pos + Suc (kl r)) (drop (kl r) r)
      else execAll kl (Suc pos) r)"

definition scanPlaceholders :: "string \<Rightarrow> pmatch list" where
  "scanPlaceholders txt = execAll keyLength 0 txt"

definition scanPlaceholders_wt :: "string \<Rightarrow> pmatch list" where
  "scanPlaceholders_wt txt = execAll keyLength_wt 0 txt"

section \<open>The host's text interface\<close>

text \<open>
  The calls into the host are modelled on the styled content. A call with an offset out
  of range throws, and \<^verbatim>\<open>setRangeFontName\<close> throws for a font that is not loaded. The
  host refuses every edit of a node with a missing font; the model is of nodes it lets the
  plugin edit, so \<^verbatim>\<open>insertCharacters\<close>, \<^verbatim>\<open>deleteCharacters\<close> and the setter of
  \<^verbatim>\<open>characters\<close> look at offsets only. Reading and writing plugin data do not throw.
  \<open>Uncaught\<close> is an exception that reaches a pass from a function it awaits outside
  any \<^verbatim>\<open>try\<close>.
\<close>

datatype host_error = RangeError | FontNotLoaded | Uncaught

datatype font_query = Uniform font | Mixed

text \<open>
  The style \<^verbatim>\<open>insertCharacters(start, _, "BEFORE")\<close> copies: that of the character
  before \<open>start\<close>, of the first character when \<open>start\<close> is \<open>0\<close>, of the node when it is
  empty.
\<close>

definition inheritFont :: "font \<Rightarrow> styled \<Rightarrow> nat \<Rightarrow> font" where
  "inheritFont base T s =
     (if 0 < s then snd (T ! (s - 1)) else if T \<noteq> [] then snd (hd T) else base)"

definition insertCharacters :: "font \<Rightarrow> int \<Rightarrow> string \<Rightarrow> styled \<Rightarrow> host_error + styled" where
  "insertCharacters base start cs T =
     (if 0 \<le> start \<and> start \<le> int (length T)
      then Inr (take (nat start) T @ map (\<lambda>c. (c, inheritFont base T (nat start))) cs
                @ drop (nat start) T)
      else Inl RangeError)"

definition deleteCharacters :: "int \<Rightarrow> int \<Rightarrow> styled \<Rightarrow> host_error + styled" where
  "deleteCharacters s e T =
     (if 0 \<le> s \<and> s \<le> e \<and> e \<le> int (length T)
      then Inr (take (nat s) T @ drop (nat e) T)
      else Inl RangeError)"

definition getRangeFontName :: "int \<Rightarrow> int \<Rightarrow> styled \<Rightarrow> host_error + font_query" where
  "getRangeFontName s e T =
     (if 0 \<le> s \<and> s < e \<and> e \<le> int (length T)
      then (let fs = map snd (take (nat e - nat s) (drop (nat s) T))
            in Inr (if \<forall>f \<in> set fs. f = hd fs then Uniform (hd fs) else Mixed))
      else Inl RangeError)"

definition setRangeFontName ::
  "font set \<Rightarrow> int \<Rightarrow> int \<Rightarrow> font \<Rightarrow> styled \<Rightarrow> host_error + styled" where
  "setRangeFontName loaded s e f T =
     (if \<not> (0 \<le> s \<and> s < e \<and> e \<le> int (length T)) then Inl RangeError
      else if f \<notin> loaded then Inl FontNotLoaded
      else Inr (take (nat s) T @ map (\<lambda>cf. (fst cf, f)) (take (nat e - nat s) (drop (nat s) T))
                @ drop (nat e) T))"

text \<open>
  The setter of \<^verbatim>\<open>node.characters\<close>: the new text takes the style of the first character
  the node had.
\<close>

definition setCharacters :: "string \<Rightarrow> text_node \<Rightarrow> text_node" where
  "setCharacters cs node =
     node\<lparr>content := map (\<lambda>c. (c, inheritFont (baseFont node) (content node) 0)) cs\<rparr>"

text \<open>
  A loop whose body can throw: the state reached, and the error that stopped it, if any.
\<close>

fun runLoop :: "('a \<Rightarrow> 's \<Rightarrow> 's \<times> host_error option) \<Rightarrow> 'a list \<Rightarrow> 's \<Rightarrow> 's \<times> host_error option" where
  "runLoop body [] s = (s, None)"
| "runLoop body (x # xs) s =
     (case body x s of
        (s', Some e) \<Rightarrow> (s', Some e)
      | (s', None) \<Rightarrow> runLoop body xs s')"

section \<open>Variables, fonts and backups\<close>

text \<open>The id \<^verbatim>\<open>createVariableCollection\<close> gives a new collection: one that is not in use.\<close>

definition freshCollectionId :: "host \<Rightarrow> nat" where
  "freshCollectionId h =
     Suc (fold max (map coll_id (collections h) @ map variableCollectionId (stringVariables h)) 0)"

definition getOrCreateCollection :: "string \<Rightarrow> host \<Rightarrow> var_collection \<times> host" where
  "getOrCreateCollection name h =
     (case find (\<lambda>c. coll_name c = name) (collections h) of
        Some c \<Rightarrow> (c, h)
      | None \<Rightarrow>
          (let c = \<lparr>coll_id = freshCollectionId h, coll_name = name\<rparr>
           in (c, h\<lparr>collections := collections h @ [c]\<rparr>)))"

definition findStringVariable :: "string \<Rightarrow> var_collection \<Rightarrow> host \<Rightarrow> variable option" where
  "findStringVariable name coll h =
     find (\<lambda>v. var_name v = name \<and> variableCollectionId v = coll_id coll) (stringVariables h)"

text \<open>
  The \<^verbatim>\<open>try\<close> block of \<^verbatim>\<open>resolveVariableValue\<close>, with its two branches: it throws
  when \<^verbatim>\<open>resolveForConsumer\<close> does. The consumer is \<open>None\<close> when it is falsy.
\<close>

definition resolveVariableValue_try :: "variable \<Rightarrow> text_node option \<Rightarrow> jsval outcome" where
  "resolveVariableValue_try v consumer =
     (case (consumer, resolveForConsumer v) of
        (Some node, Some f) \<Rightarrow>
          (case f node of
             Throws \<Rightarrow> Throws
           | Returns x \<Rightarrow> Returns (if truthy x then x else JString []))
      | _ \<Rightarrow>
          Returns
            (case valuesByMode v of
               [] \<Rightarrow> JString []
             | (k, x) # _ \<Rightarrow>
                 (case x of
                    JString s \<Rightarrow> JString s
                  | _ \<Rightarrow> JString (toString (if truthy x then x else JString [])))))"

text \<open>
  \<^verbatim>\<open>resolveVariableValue\<close>: the \<^verbatim>\<open>try\<close> block under its \<^verbatim>\<open>catch\<close>, which logs
  the exception and returns the empty string.
\<close>

definition resolveVariableValue :: "variable \<Rightarrow> text_node option \<Rightarrow> jsval outcome" where
  "resolveVariableValue v consumer =
     (case resolveVariableValue_try v consumer of
        Throws \<Rightarrow> Returns (JString [])
      | Returns x \<Rightarrow> Returns x)"

text \<open>
  The head of the planning loop: \<^verbatim>\<open>findStringVariable\<close>, then, for a variable that was
  found, \<^verbatim>\<open>await resolveVariableValue(variable, node)\<close>, which is outside any
  \<^verbatim>\<open>try\<close>, and \<^verbatim>\<open>typeof val === "string" ? val : String(val || "")\<close>. \<open>None\<close>
  is the \<^verbatim>\<open>null\<close> that makes the loop \<^verbatim>\<open>continue\<close>.
\<close>

definition resolvedValue ::
  "host \<Rightarrow> var_collection \<Rightarrow> text_node \<Rightarrow> string \<Rightarrow> string option outcome" where
  "resolvedValue h coll node k =
     (case findStringVariable k coll h of
        None \<Rightarrow> Returns None
      | Some v \<Rightarrow>
          (case resolveVariableValue v (Some node) of
             Throws \<Rightarrow> Throws
           | Returns val \<Rightarrow>
               Returns (Some (case val of
                                JString s \<Rightarrow> s
                              | _ \<Rightarrow> toString (if truthy val then val else JString [])))))"

text \<open>
  \<^verbatim>\<open>safeLoadFonts\<close>: the fonts are deduplicated by the key
  \<^verbatim>\<open>`${f.family}__${f.style}`\<close>, the first font of a key is kept, and each kept font is
  loaded if the host can load it; a font that fails to load is skipped.
\<close>

definition fontKey :: "font \<Rightarrow> string" where
  "fontKey f = family f @ ''__'' @ style f"

fun uniqueFonts :: "string list \<Rightarrow> font list \<Rightarrow> font list" where
  "uniqueFonts seen [] = []"
| "uniqueFonts seen (f # fs) =
     (if fontKey f \<in> set seen then uniqueFonts seen fs
      else f # uniqueFonts (fontKey f # seen) fs)"

definition safeLoadFonts :: "font list \<Rightarrow> host \<Rightarrow> host" where
  "safeLoadFonts fonts h =
     h\<lparr>loadedFonts := loadedFonts h \<union> (set (uniqueFonts [] fonts) \<inter> availableFonts h)\<rparr>"

text \<open>
  \<^verbatim>\<open>safeLoadFontsForNode\<close>: the fonts of the styled segments whose family and style are
  both truthy.
\<close>

definition safeLoadFontsForNode :: "text_node \<Rightarrow> host \<Rightarrow> host" where
  "safeLoadFontsForNode node h =
     safeLoadFonts (filter (\<lambda>f. family f \<noteq> [] \<and> style f \<noteq> []) (remdups_adj (map snd (content node)))) h"

text \<open>\<^verbatim>\<open>figma.loadFontAsync\<close> inside a \<^verbatim>\<open>try\<close>: whether it succeeded, and the host after.\<close>

definition loadFontAsync :: "font \<Rightarrow> host \<Rightarrow> bool \<times> host" where
  "loadFontAsync f h =
     (if f \<in> availableFonts h then (True, h\<lparr>loadedFonts := insert f (loadedFonts h)\<rparr>)
      else (False, h))"

definition saveNodeBackup ::
  "text_node \<Rightarrow> string \<Rightarrow> (string \<rightharpoonup> string) \<Rightarrow> string \<Rightarrow> restore_record list \<Rightarrow> int \<Rightarrow> text_node" where
  "saveNodeBackup node originalText snap collectionName reps t =
     node\<lparr>pluginData := Some \<lparr>original = Some originalText, snapshot = snap,
        collection = (if collectionName = [] then DEFAULT_COLLECTION_NAME else collectionName),
        replacements = Some reps, ts = t\<rparr>\<rparr>"

text \<open>The whole-text evolution writes a payload without \<^verbatim>\<open>replacements\<close>.\<close>

definition saveNodeBackup_wt ::
  "text_node \<Rightarrow> string \<Rightarrow> (string \<rightharpoonup> string) \<Rightarrow> string \<Rightarrow> int \<Rightarrow> text_node" where
  "saveNodeBackup_wt node originalText snap collectionName t =
     node\<lparr>pluginData := Some \<lparr>original = Some originalText, snapshot = snap,
        collection = (if collectionName = [] then DEFAULT_COLLECTION_NAME else collectionName),
        replacements = None, ts = t\<rparr>\<rparr>"

definition readNodeBackup :: "text_node \<Rightarrow> backup option" where
  "readNodeBackup node = pluginData node"

definition clearNodeBackup :: "text_node \<Rightarrow> text_node" where
  "clearNodeBackup node = node\<lparr>pluginData := None\<rparr>"

section \<open>The substitution engine\<close>

text \<open>
  The assignment \<^verbatim>\<open>snapshot[key] = value\<close> of a string to a property of an object that was
  made by the literal \<^verbatim>\<open>{}\<close>. The name \<^verbatim>\<open>__proto__\<close> is the accessor the object inherits
  from \<^verbatim>\<open>Object.prototype\<close>, and its setter ignores a value that is not an object: the
  assignment makes no property. Under every other name the object gets, or updates, a
  property of its own.
\<close>

definition setProperty :: "(string \<rightharpoonup> string) \<Rightarrow> string \<Rightarrow> string \<Rightarrow> (string \<rightharpoonup> string)" where
  "setProperty obj k v = (if k = ''__proto__'' then obj else obj(k \<mapsto> v))"

text \<open>\<^verbatim>\<open>collectionName || DEFAULT_COLLECTION_NAME\<close>.\<close>

definition collectionArg :: "string \<Rightarrow> string" where
  "collectionArg collectionName =
     (if collectionName = [] then DEFAULT_COLLECTION_NAME else collectionName)"

text \<open>The variables the planning loop updates.\<close>

record plan =
  p_snapshot :: "string \<rightharpoonup> string"
  p_replacements :: "restore_record list"
  p_ops :: "repl_op list"
  runningDelta :: int
  hasIconReplacement :: bool

definition emptyPlan :: plan where
  "emptyPlan = \<lparr>p_snapshot = Map.empty, p_replacements = [], p_ops = [], runningDelta = 0,
     hasIconReplacement = False\<rparr>"

text \<open>
  The \<^verbatim>\<open>try\<close> block that captures the font of the placeholder's first character:
  \<^verbatim>\<open>null\<close> when the host throws or answers \<^verbatim>\<open>figma.mixed\<close>.
\<close>

definition captureFont :: "text_node \<Rightarrow> nat \<Rightarrow> font option" where
  "captureFont node s =
     (case getRangeFontName (int s) (int s + 1) (content node) of
        Inr (Uniform f) \<Rightarrow> Some f
      | _ \<Rightarrow> None)"

text \<open>\<^verbatim>\<open>mm.key.startsWith("icon/")\<close>.\<close>

definition isIconKey :: "string \<Rightarrow> bool" where
  "isIconKey k \<longleftrightarrow> take 5 k = ''icon/''"

text \<open>The body of \<^verbatim>\<open>for (const mm of matches)\<close> after the \<^verbatim>\<open>continue\<close>.\<close>

definition planStep :: "text_node \<Rightarrow> pmatch \<Rightarrow> string \<Rightarrow> plan \<Rightarrow> plan" where
  "planStep node mm v p =
     (let originalFont = captureFont node (mstart mm);
          finalStart = int (mstart mm) + runningDelta p
      in \<lparr>p_snapshot = setProperty (p_snapshot p) (mkey mm) v,
          p_replacements = p_replacements p @
            [\<lparr>rep_start = finalStart, rep_len = int (length v), rep_originalText = mtext mm,
              rep_originalFont = originalFont\<rparr>],
          p_ops = p_ops p @
            [\<lparr>op_start = mstart mm, removeLen = mlen mm, insertText = v,
              isIcon = isIconKey (mkey mm), op_originalFont = originalFont\<rparr>],
          runningDelta = runningDelta p + (int (length v) - int (mlen mm)),
          hasIconReplacement = (hasIconReplacement p \<or> isIconKey (mkey mm))\<rparr>)"

text \<open>The loop \<^verbatim>\<open>for (const mm of matches)\<close>; an exception of its head ends it.\<close>

fun planMatches ::
  "host \<Rightarrow> var_collection \<Rightarrow> text_node \<Rightarrow> pmatch list \<Rightarrow> plan \<Rightarrow> plan outcome" where
  "planMatches h coll node [] p = Returns p"
| "planMatches h coll node (mm # ms) p =
     (case resolvedValue h coll node (mkey mm) of
        Throws \<Rightarrow> Throws
      | Returns None \<Rightarrow> planMatches h coll node ms p
      | Returns (Some v) \<Rightarrow> planMatches h coll node ms (planStep node mm v p))"

text \<open>
  The font block after \<^verbatim>\<open>insertCharacters\<close>. Setting the icon font is outside any
  \<^verbatim>\<open>try\<close>; a failure to set the captured font is caught and ignored.
\<close>

definition styleInserted ::
  "font set \<Rightarrow> font \<Rightarrow> bool \<Rightarrow> repl_op \<Rightarrow> styled \<Rightarrow> styled \<times> host_error option" where
  "styleInserted loaded iconFont iconFontLoaded op T =
     (let insertEnd = int (op_start op) + int (length (insertText op))
      in if isIcon op \<and> iconFontLoaded
         then (case setRangeFontName loaded (int (op_start op)) insertEnd iconFont T of
                 Inl e \<Rightarrow> (T, Some e)
               | Inr T' \<Rightarrow> (T', None))
         else (case op_originalFont op of
                 None \<Rightarrow> (T, None)
               | Some f \<Rightarrow>
                   (case setRangeFontName loaded (int (op_start op)) insertEnd f T of
                      Inl e \<Rightarrow> (T, None)
                    | Inr T' \<Rightarrow> (T', None))))"

definition deleteOld :: "repl_op \<Rightarrow> styled \<Rightarrow> styled \<times> host_error option" where
  "deleteOld op T =
     (let delStart = int (op_start op) + int (length (insertText op))
      in case deleteCharacters delStart (delStart + int (removeLen op)) T of
           Inl e \<Rightarrow> (T, Some e)
         | Inr T' \<Rightarrow> (T', None))"

text \<open>The body of the loop that applies the operations.\<close>

definition applyOp ::
  "font \<Rightarrow> font set \<Rightarrow> font \<Rightarrow> bool \<Rightarrow> repl_op \<Rightarrow> styled \<Rightarrow> styled \<times> host_error option" where
  "applyOp base loaded iconFont iconFontLoaded op T =
     (if insertText op \<noteq> []
      then (case insertCharacters base (int (op_start op)) (insertText op) T of
              Inl e \<Rightarrow> (T, Some e)
            | Inr T1 \<Rightarrow>
                (case styleInserted loaded iconFont iconFontLoaded op T1 of
                   (T2, Some e) \<Rightarrow> (T2, Some e)
                 | (T2, None) \<Rightarrow> deleteOld op T2))
      else deleteOld op T)"

record replace_result =
  changed :: bool
  res_snapshot :: "(string \<rightharpoonup> string) option"

definition iconFontOf :: "plugin_state \<Rightarrow> font" where
  "iconFontOf ps =
     FontName (iconFontFamily ps) (if iconFontStyle ps = [] then ''Regular'' else iconFontStyle ps)"

text \<open>
  \<^verbatim>\<open>replacePlaceholdersInNode(node, collectionName)\<close>. The result is what the call
  returns or the error it throws, with the node and the host as the call leaves them. The
  loop \<^verbatim>\<open>for (let i = ops.length - 1; i >= 0; i--)\<close> runs over the reversed list.
\<close>

definition replacePlaceholdersInNode ::
  "plugin_state \<Rightarrow> string \<Rightarrow> host \<Rightarrow> text_node \<Rightarrow> (host_error + replace_result) \<times> text_node \<times> host" where
  "replacePlaceholdersInNode ps collectionName h node =
     (let txt = characters node;
          matches = scanPlaceholders txt
      in if matches = []
         then (Inr \<lparr>changed = False, res_snapshot = None\<rparr>, clearNodeBackup node, h)
         else
           (let (coll, h1) = getOrCreateCollection (collectionArg collectionName) h
            in case planMatches h1 coll node matches emptyPlan of
                 Throws \<Rightarrow> (Inl Uncaught, node, h1)
               | Returns p \<Rightarrow>
                   if p_ops p = []
                   then (Inr \<lparr>changed = False, res_snapshot = None\<rparr>, clearNodeBackup node, h1)
                   else
                     (let h2 = safeLoadFontsForNode node h1;
                          (iconFontLoaded, h3) =
                            (if hasIconReplacement p \<and> iconFontFamily ps \<noteq> []
                             then loadFontAsync (iconFontOf ps) h2
                             else (False, h2));
                          node1 = saveNodeBackup node txt (p_snapshot p) (coll_name coll)
                                    (p_replacements p) (now h3);
                          (T, err) = runLoop (applyOp (baseFont node1) (loadedFonts h3)
                                       (iconFontOf ps) iconFontLoaded) (rev (p_ops p)) (content node1)
                      in (case err of
                            Some e \<Rightarrow> Inl e
                          | None \<Rightarrow> Inr \<lparr>changed = True, res_snapshot = Some (p_snapshot p)\<rparr>,
                          node1\<lparr>content := T\<rparr>, h3))))"

section \<open>The restoration engine\<close>

text \<open>The body of \<^verbatim>\<open>for (const rep of reps)\<close>.\<close>

definition restoreRep :: "font \<Rightarrow> font set \<Rightarrow> restore_record \<Rightarrow> styled \<Rightarrow> styled \<times> host_error option" where
  "restoreRep base loaded rep T =
     (case insertCharacters base (rep_start rep) (rep_originalText rep) T of
        Inl e \<Rightarrow> (T, Some e)
      | Inr T1 \<Rightarrow>
          (let T2 = (case rep_originalFont rep of
                       None \<Rightarrow> T1
                     | Some f \<Rightarrow>
                         (case setRangeFontName loaded (rep_start rep)
                                 (rep_start rep + int (length (rep_originalText rep))) f T1 of
                            Inl e \<Rightarrow> T1
                          | Inr T' \<Rightarrow> T'));
               delStart = rep_start rep + int (length (rep_originalText rep))
           in case deleteCharacters delStart (delStart + rep_len rep) T2 of
                Inl e \<Rightarrow> (T2, Some e)
              | Inr T3 \<Rightarrow> (T3, None)))"

text \<open>
  \<^verbatim>\<open>[...backup.replacements].sort((a, b) => b.start - a.start)\<close>: descending by
  \<^verbatim>\<open>start\<close>, and stable, as \<^verbatim>\<open>Array.prototype.sort\<close> is since ES2019.
\<close>

definition sortDescending :: "restore_record list \<Rightarrow> restore_record list" where
  "sortDescending reps = sort_key (\<lambda>r. - rep_start r) reps"

record restore_result =
  restored :: bool

text \<open>\<^verbatim>\<open>restorePlaceholdersInNode(node)\<close>.\<close>

definition restorePlaceholdersInNode ::
  "host \<Rightarrow> text_node \<Rightarrow> (host_error + restore_result) \<times> text_node \<times> host" where
  "restorePlaceholdersInNode h node =
     (case readNodeBackup node of
        None \<Rightarrow> (Inr \<lparr>restored = False\<rparr>, node, h)
      | Some b \<Rightarrow>
          (let h1 = safeLoadFontsForNode node h
           in case replacements b of
                Some rs \<Rightarrow>
                  (let reps = sortDescending rs;
                       h2 = safeLoadFonts (List.map_filter rep_originalFont reps) h1;
                       (T, err) = runLoop (restoreRep (baseFont node) (loadedFonts h2)) reps
                                    (content node)
                   in case err of
                        Some e \<Rightarrow> (Inl e, node\<lparr>content := T\<rparr>, h2)
                      | None \<Rightarrow>
                          (Inr \<lparr>restored = True\<rparr>, clearNodeBackup (node\<lparr>content := T\<rparr>), h2))
              | None \<Rightarrow>
                  (case original b of
                     Some (c # cs) \<Rightarrow>
                       (Inr \<lparr>restored = True\<rparr>, clearNodeBackup (setCharacters (c # cs) node), h1)
                   | _ \<Rightarrow> (Inr \<lparr>restored = False\<rparr>, node, h1))))"

section \<open>The whole-text evolution\<close>

text \<open>\<^verbatim>\<open>text.slice(a, b)\<close> for offsets that are not negative.\<close>

definition slice :: "string \<Rightarrow> nat \<Rightarrow> nat \<Rightarrow> string" where
  "slice txt a b = take (b - a) (drop a txt)"

text \<open>The variables of the loop that builds the new text left to right.\<close>

record build_wt =
  out :: string
  lastIndex :: nat
  b_snapshot :: "string \<rightharpoonup> string"

fun buildOut_wt ::
  "host \<Rightarrow> var_collection \<Rightarrow> text_node \<Rightarrow> string \<Rightarrow> pmatch list \<Rightarrow> build_wt \<Rightarrow> build_wt outcome" where
  "buildOut_wt h coll node txt [] b = Returns b"
| "buildOut_wt h coll node txt (mm # ms) b =
     (let out1 = out b @ slice txt (lastIndex b) (mstart mm)
      in case resolvedValue h coll node (mkey mm) of
           Throws \<Rightarrow> Throws
         | Returns (Some replacement) \<Rightarrow>
             buildOut_wt h coll node txt ms
               \<lparr>out = out1 @ replacement, lastIndex = mstart mm + mlen mm,
                b_snapshot = setProperty (b_snapshot b) (mkey mm) replacement\<rparr>
         | Returns None \<Rightarrow>
             buildOut_wt h coll node txt ms
               \<lparr>out = out1 @ slice txt (mstart mm) (mstart mm + mlen mm),
                lastIndex = mstart mm + mlen mm, b_snapshot = b_snapshot b\<rparr>)"

text \<open>\<^verbatim>\<open>replacePlaceholdersInNode\<close> of \<^verbatim>\<open>src/code.js\<close>.\<close>

definition replacePlaceholdersInNode_wt ::
  "string \<Rightarrow> host \<Rightarrow> text_node \<Rightarrow> (host_error + replace_result) \<times> text_node \<times> host" where
  "replacePlaceholdersInNode_wt collectionName h node =
     (let txt = characters node;
          matches = scanPlaceholders_wt txt
      in if matches = []
         then (Inr \<lparr>changed = False, res_snapshot = None\<rparr>, node, h)
         else
           (let (coll, h1) = getOrCreateCollection (collectionArg collectionName) h
            in case buildOut_wt h1 coll node txt matches
                      \<lparr>out = [], lastIndex = 0, b_snapshot = Map.empty\<rparr> of
                 Throws \<Rightarrow> (Inl Uncaught, node, h1)
               | Returns b \<Rightarrow>
                   (let out2 = out b @ drop (lastIndex b) txt;
                        h2 = safeLoadFontsForNode node h1;
                        node1 = saveNodeBackup_wt node txt (b_snapshot b) (coll_name coll) (now h2)
                    in (Inr \<lparr>changed = True, res_snapshot = Some (b_snapshot b)\<rparr>,
                        setCharacters out2 node1, h2))))"

text \<open>\<^verbatim>\<open>restorePlaceholdersInNode\<close> of \<^verbatim>\<open>src/code.js\<close>: the backup is kept.\<close>

definition restorePlaceholdersInNode_wt ::
  "host \<Rightarrow> text_node \<Rightarrow> restore_result \<times> text_node \<times> host" where
  "restorePlaceholdersInNode_wt h node =
     (case readNodeBackup node of
        None \<Rightarrow> (\<lparr>restored = False\<rparr>, node, h)
      | Some b \<Rightarrow>
          (case original b of
             Some (c # cs) \<Rightarrow>
               (\<lparr>restored = True\<rparr>, setCharacters (c # cs) node, safeLoadFontsForNode node h)
           | _ \<Rightarrow> (\<lparr>restored = False\<rparr>, node, h)))"

section \<open>The selection handler\<close>

text \<open>
  \<^verbatim>\<open>handleSelectionChange\<close>, the same text in both files, run to completion on the
  selection it reads when it starts. The errors of the two passes are caught and logged,
  and what a pass did to its node before it threw stays.
\<close>

definition newSelectedNode :: "host \<Rightarrow> (string \<times> text_node) option" where
  "newSelectedNode h =
     (case selection h of
        [i] \<Rightarrow> (case nodes h i of Some (TextNode n) \<Rightarrow> Some (i, n) | _ \<Rightarrow> None)
      | _ \<Rightarrow> None)"

definition newId :: "host \<Rightarrow> string option" where
  "newId h = map_option fst (newSelectedNode h)"

text \<open>The edit-finish block.\<close>

definition editFinish :: "plugin_state \<Rightarrow> host \<Rightarrow> host" where
  "editFinish ps h =
     (case lastSelectedNodeId ps of
        None \<Rightarrow> h
      | Some prevId \<Rightarrow>
          (if prevId \<noteq> [] \<and> Some prevId \<noteq> newId h
           then (case nodes h prevId of
                   Some (TextNode prevNode) \<Rightarrow>
                     (case replacePlaceholdersInNode ps (chosenCollection ps) h prevNode of
                        (r, node', h') \<Rightarrow> h'\<lparr>nodes := (nodes h')(prevId \<mapsto> TextNode node')\<rparr>)
                 | _ \<Rightarrow> h)
           else h))"

text \<open>The edit-start block; the selected node is read again after the first block ran.\<close>

definition editStart :: "plugin_state \<Rightarrow> string option \<Rightarrow> host \<Rightarrow> host" where
  "editStart ps sel h =
     (case sel of
        None \<Rightarrow> h
      | Some i \<Rightarrow>
          (if Some i \<noteq> lastSelectedNodeId ps
           then (case nodes h i of
                   Some (TextNode n) \<Rightarrow>
                     (case restorePlaceholdersInNode h n of
                        (r, node', h') \<Rightarrow> h'\<lparr>nodes := (nodes h')(i \<mapsto> TextNode node')\<rparr>)
                 | _ \<Rightarrow> h)
           else h))"

definition handleSelectionChange :: "plugin_state \<Rightarrow> host \<Rightarrow> plugin_state \<times> host" where
  "handleSelectionChange ps h =
     (if \<not> featureEnabled ps then (ps, h)
      else if processing ps then (ps, h)
      else (let sel = newId h;
                h1 = editFinish ps h;
                h2 = editStart ps sel h1
            in (ps\<lparr>lastSelectedNodeId := sel, processing := False\<rparr>, h2)))"

section \<open>Notions used to state the properties\<close>

text \<open>The collection a pass resolves against, and the host once the pass has it.\<close>

definition passCollection :: "string \<Rightarrow> host \<Rightarrow> var_collection" where
  "passCollection collectionName h = fst (getOrCreateCollection (collectionArg collectionName) h)"

definition passHost :: "string \<Rightarrow> host \<Rightarrow> host" where
  "passHost collectionName h = snd (getOrCreateCollection (collectionArg collectionName) h)"

text \<open>
  What the head of the planning loop gives for a key: \<open>None\<close> is absent. (The head
  does not throw; that is proved below.)
\<close>

definition valueIn :: "host \<Rightarrow> var_collection \<Rightarrow> text_node \<Rightarrow> string \<Rightarrow> string option" where
  "valueIn h coll node k = (case resolvedValue h coll node k of Returns r \<Rightarrow> r | Throws \<Rightarrow> None)"

text \<open>What a key resolves to in a pass over a node.\<close>

definition resolver :: "string \<Rightarrow> host \<Rightarrow> text_node \<Rightarrow> string \<Rightarrow> string option" where
  "resolver collectionName h node k =
     valueIn (passHost collectionName h) (passCollection collectionName h) node k"

text \<open>The actionable matches of a list of matches, in scan order, each with its value.\<close>

definition resolvedMatches :: "(string \<Rightarrow> string option) \<Rightarrow> pmatch list \<Rightarrow> (pmatch \<times> string) list" where
  "resolvedMatches res ms = List.map_filter (\<lambda>m. map_option (Pair m) (res (mkey m))) ms"

definition actionableMatches :: "string \<Rightarrow> host \<Rightarrow> text_node \<Rightarrow> (pmatch \<times> string) list" where
  "actionableMatches collectionName h node =
     resolvedMatches (resolver collectionName h node) (scanPlaceholders (characters node))"

text \<open>The node and the host a call leaves, and what it returns.\<close>

definition nodeAfter :: "'r \<times> text_node \<times> host \<Rightarrow> text_node" where
  "nodeAfter r = fst (snd r)"

definition hostAfter :: "'r \<times> text_node \<times> host \<Rightarrow> host" where
  "hostAfter r = snd (snd r)"

text \<open>Whether the node of an id is a text node.\<close>

definition isTextAt :: "host \<Rightarrow> string \<Rightarrow> bool" where
  "isTextAt h i = (case nodes h i of Some (TextNode n) \<Rightarrow> True | _ \<Rightarrow> False)"

text \<open>The records and the snapshot of the backup a node holds, empty when it holds none.\<close>

definition persistedRecords :: "text_node \<Rightarrow> restore_record list" where
  "persistedRecords node =
     (case readNodeBackup node of
        Some b \<Rightarrow> (case replacements b of Some rs \<Rightarrow> rs | None \<Rightarrow> [])
      | None \<Rightarrow> [])"

definition persistedSnapshot :: "text_node \<Rightarrow> string \<rightharpoonup> string" where
  "persistedSnapshot node =
     (case readNodeBackup node of Some b \<Rightarrow> snapshot b | None \<Rightarrow> Map.empty)"

text \<open>
  The text a substitution is meant to produce, read left to right: the text between the
  matches stays, a match whose key resolves gives way to its value, and a match whose key
  is absent stays as it was matched. The second argument is the offset at which the third,
  the rest of the text, starts.
\<close>

fun substituted :: "(string \<Rightarrow> string option) \<Rightarrow> nat \<Rightarrow> string \<Rightarrow> pmatch list \<Rightarrow> string" where
  "substituted res pos txt [] = txt"
| "substituted res pos txt (m # ms) =
     take (mstart m - pos) txt
     @ (case res (mkey m) of None \<Rightarrow> mtext m | Some v \<Rightarrow> v)
     @ substituted res (mstart m + mlen m) (drop (mstart m + mlen m - pos) txt) ms"

text \<open>
  What the scanner guarantees about its matches, relative to the rest of the text and the
  offset at which it starts: they are in order, do not overlap, lie inside the text, are at
  least two code units long, and \<^verbatim>\<open>text\<close> is the matched part of the text.
\<close>

fun wfMatches :: "nat \<Rightarrow> string \<Rightarrow> pmatch list \<Rightarrow> bool" where
  "wfMatches pos txt [] \<longleftrightarrow> True"
| "wfMatches pos txt (m # ms) \<longleftrightarrow>
     pos \<le> mstart m \<and> 2 \<le> mlen m \<and> mstart m + mlen m \<le> pos + length txt
     \<and> mtext m = take (mlen m) (drop (mstart m - pos) txt)
     \<and> wfMatches (mstart m + mlen m) (drop (mstart m + mlen m - pos) txt) ms"

text \<open>
  A splice replaces the \<open>r\<close> elements at offset \<open>s\<close> by the list \<open>y\<close>. Splices that are
  in order and do not overlap, and the list they give when all are applied to the original
  offsets. Both engines apply such splices from the last to the first.
\<close>

type_synonym 'b splice = "nat \<times> nat \<times> 'b list"

fun wfSpans :: "nat \<Rightarrow> nat \<Rightarrow> 'b splice list \<Rightarrow> bool" where
  "wfSpans pos n [] \<longleftrightarrow> pos \<le> n"
| "wfSpans pos n ((s, r, y) # xs) \<longleftrightarrow> pos \<le> s \<and> wfSpans (s + r) n xs"

fun rebuild :: "nat \<Rightarrow> 'b list \<Rightarrow> 'b splice list \<Rightarrow> 'b list" where
  "rebuild pos T [] = T"
| "rebuild pos T ((s, r, y) # xs) =
     take (s - pos) T @ y @ rebuild (s + r) (drop (s + r - pos) T) xs"

text \<open>
  The offsets of the inserted lists in the rebuilt list: each original offset, plus the
  running delta of the splices before it.
\<close>

fun shifted :: "int \<Rightarrow> 'b splice list \<Rightarrow> int list" where
  "shifted d [] = []"
| "shifted d ((s, r, y) # xs) = (int s + d) # shifted (d + (int (length y) - int r)) xs"

text \<open>The operation and the records the planning loop makes of the actionable matches.\<close>

definition opOf :: "text_node \<Rightarrow> pmatch \<times> string \<Rightarrow> repl_op" where
  "opOf node mv = \<lparr>op_start = mstart (fst mv), removeLen = mlen (fst mv), insertText = snd mv,
      isIcon = isIconKey (mkey (fst mv)), op_originalFont = captureFont node (mstart (fst mv))\<rparr>"

fun recsFrom :: "text_node \<Rightarrow> int \<Rightarrow> (pmatch \<times> string) list \<Rightarrow> restore_record list" where
  "recsFrom node d [] = []"
| "recsFrom node d (mv # mvs) =
     \<lparr>rep_start = int (mstart (fst mv)) + d, rep_len = int (length (snd mv)),
      rep_originalText = mtext (fst mv), rep_originalFont = captureFont node (mstart (fst mv))\<rparr>
     # recsFrom node (d + (int (length (snd mv)) - int (mlen (fst mv)))) mvs"

text \<open>
  The font an inserted value ends up with: the icon font for an icon key when that font was
  loaded, else the captured font when it is loaded, else the font the insertion copied.
\<close>

definition spanFont :: "font \<Rightarrow> font set \<Rightarrow> font \<Rightarrow> bool \<Rightarrow> repl_op \<Rightarrow> styled \<Rightarrow> font" where
  "spanFont base loaded iconFont il op T =
     (if isIcon op \<and> il then iconFont
      else case op_originalFont op of
             Some f \<Rightarrow> if f \<in> loaded then f else inheritFont base T (op_start op)
           | None \<Rightarrow> inheritFont base T (op_start op))"

definition valueSplice ::
  "font \<Rightarrow> font set \<Rightarrow> font \<Rightarrow> bool \<Rightarrow> styled \<Rightarrow> repl_op \<Rightarrow> (char \<times> font) splice" where
  "valueSplice base loaded iconFont il T op =
     (op_start op, removeLen op,
      map (\<lambda>c. (c, spanFont base loaded iconFont il op T)) (insertText op))"

text \<open>
  Whether a pass ends with the icon font loaded: some actionable match has an icon key, an
  icon font family is configured, and the host can load the font.
\<close>

definition iconLoadedIn :: "plugin_state \<Rightarrow> string \<Rightarrow> host \<Rightarrow> text_node \<Rightarrow> bool" where
  "iconLoadedIn ps collectionName h node \<longleftrightarrow>
     (\<exists>mv \<in> set (actionableMatches collectionName h node). isIconKey (mkey (fst mv)))
     \<and> iconFontFamily ps \<noteq> [] \<and> iconFontOf ps \<in> availableFonts h"

text \<open>The fonts that are loaded when the pass starts to rewrite the text.\<close>

definition loadedInPass :: "plugin_state \<Rightarrow> string \<Rightarrow> host \<Rightarrow> text_node \<Rightarrow> font set" where
  "loadedInPass ps collectionName h node =
     loadedFonts (safeLoadFontsForNode node h)
     \<union> (if iconLoadedIn ps collectionName h node then {iconFontOf ps} else {})"

text \<open>The styled content a pass with an actionable match leaves.\<close>

definition substitutedContent :: "plugin_state \<Rightarrow> string \<Rightarrow> host \<Rightarrow> text_node \<Rightarrow> styled" where
  "substitutedContent ps collectionName h node =
     rebuild 0 (content node)
       (map (valueSplice (baseFont node) (loadedInPass ps collectionName h node) (iconFontOf ps)
               (iconLoadedIn ps collectionName h node) (content node))
          (map (opOf node) (actionableMatches collectionName h node)))"

text \<open>
  What a match leaves in the text (its value, or the matched text when its key is not
  resolved), and the net change of length made by the matches before the \<open>i\<close>-th: added to
  the offset of the \<open>i\<close>-th match in the text before the pass, it gives the offset where
  what this match leaves begins in the text after the pass.
\<close>

definition piece :: "(string \<Rightarrow> string option) \<Rightarrow> pmatch \<Rightarrow> string" where
  "piece res m = (case res (mkey m) of None \<Rightarrow> mtext m | Some v \<Rightarrow> v)"

definition shiftBefore :: "(string \<Rightarrow> string option) \<Rightarrow> pmatch list \<Rightarrow> nat \<Rightarrow> int" where
  "shiftBefore res ms i =
     (\<Sum>m\<leftarrow>take i ms. case res (mkey m) of None \<Rightarrow> 0 | Some v \<Rightarrow> int (length v) - int (mlen m))"

text \<open>The font of the code unit at an offset, and a span that is in one font throughout.\<close>

definition fontAt :: "text_node \<Rightarrow> nat \<Rightarrow> font" where
  "fontAt node s = snd (content node ! s)"

definition uniformSpan :: "text_node \<Rightarrow> nat \<Rightarrow> nat \<Rightarrow> bool" where
  "uniformSpan node s r \<longleftrightarrow> (\<forall>cf \<in> set (take r (drop s (content node))). snd cf = fontAt node s)"

text \<open>
  No actionable match with an empty value is followed at once by the next actionable
  match. (Two such matches get records with the same \<^verbatim>\<open>start\<close>.)
\<close>

fun noEmptyValueBeforeAdjacent :: "(pmatch \<times> string) list \<Rightarrow> bool" where
  "noEmptyValueBeforeAdjacent (mv # mv' # rest) \<longleftrightarrow>
     (snd mv \<noteq> [] \<or> mstart (fst mv) + mlen (fst mv) < mstart (fst mv'))
     \<and> noEmptyValueBeforeAdjacent (mv' # rest)"
| "noEmptyValueBeforeAdjacent mvs \<longleftrightarrow> True"

fun noTie :: "'b splice list \<Rightarrow> bool" where
  "noTie ((s, r, y) # (s', r', y') # rest) \<longleftrightarrow>
     (y \<noteq> [] \<or> s + r < s') \<and> noTie ((s', r', y') # rest)"
| "noTie xs \<longleftrightarrow> True"

text \<open>
  The splices that undo a list of splices: at the shifted offset, what was inserted gives
  way to what the original list held there.
\<close>

fun inverseSplices :: "int \<Rightarrow> 'b list \<Rightarrow> 'b splice list \<Rightarrow> 'b splice list" where
  "inverseSplices d T0 [] = []"
| "inverseSplices d T0 ((s, r, y) # xs) =
     (nat (int s + d), length y, take r (drop s T0))
     # inverseSplices (d + (int (length y) - int r)) T0 xs"

text \<open>What restoring a record does when its font can be set, as a splice.\<close>

definition recSplice :: "restore_record \<Rightarrow> (char \<times> font) splice" where
  "recSplice rep = (nat (rep_start rep), nat (rep_len rep),
     map (\<lambda>c. (c, the (rep_originalFont rep))) (rep_originalText rep))"

text \<open>The same on the text alone, whatever font the placeholder ends up with.\<close>

definition recTextSplice :: "restore_record \<Rightarrow> char splice" where
  "recTextSplice rep = (nat (rep_start rep), nat (rep_len rep), rep_originalText rep)"

text \<open>A substitution pass over a node, and a restoration right after it.\<close>

definition roundTrip ::
  "plugin_state \<Rightarrow> string \<Rightarrow> host \<Rightarrow> text_node \<Rightarrow> (host_error + restore_result) \<times> text_node \<times> host" where
  "roundTrip ps cn h node =
     restorePlaceholdersInNode (hostAfter (replacePlaceholdersInNode ps cn h node))
       (nodeAfter (replacePlaceholdersInNode ps cn h node))"

section \<open>Concrete inputs\<close>

definition exRegular :: font where
  "exRegular = FontName ''Inter'' ''Regular''"

definition exBold :: font where
  "exBold = FontName ''Inter'' ''Bold''"

definition exIcon :: font where
  "exIcon = FontName ''Icons'' ''Regular''"

definition plainNode :: "string \<Rightarrow> text_node" where
  "plainNode s = \<lparr>content = map (\<lambda>c. (c, exRegular)) s, baseFont = exRegular, pluginData = None\<rparr>"

definition constVar :: "string \<Rightarrow> string \<Rightarrow> variable" where
  "constVar k v = \<lparr>var_name = k, variableCollectionId = 1,
     resolveForConsumer = Some (\<lambda>n. Returns (JString v)), valuesByMode = []\<rparr>"

definition throwingVar :: "string \<Rightarrow> variable" where
  "throwingVar k = \<lparr>var_name = k, variableCollectionId = 1,
     resolveForConsumer = Some (\<lambda>n. Throws), valuesByMode = [(''m'', JString ''fallback'')]\<rparr>"

text \<open>
  A host with the collection \<open>Keywords\<close>, in which \<open>a\<close> is \<open>XXXX\<close>, \<open>bb\<close> is \<open>Y\<close>,
  \<open>e\<close> is the empty string, \<open>icon/star\<close> is \<open>*\<close> and resolving \<open>boom\<close> throws.
\<close>

definition exHost :: host where
  "exHost = \<lparr>collections = [\<lparr>coll_id = 1, coll_name = ''Keywords''\<rparr>],
     stringVariables = [constVar ''a'' ''XXXX'', constVar ''bb'' ''Y'', constVar ''e'' [],
       constVar ''icon/star'' ''*'', throwingVar ''boom''],
     availableFonts = {exRegular, exBold, exIcon}, loadedFonts = {}, now = 0,
     nodes = Map.empty, selection = []\<rparr>"

definition exState :: plugin_state where
  "exState = \<lparr>featureEnabled = True, chosenCollection = ''Keywords'', iconFontFamily = ''Icons'',
     iconFontStyle = [], lastSelectedNodeId = None, processing = False\<rparr>"

text \<open>A backup left by an earlier pass over another text.\<close>

definition staleBackup :: backup where
  "staleBackup = \<lparr>original = Some ''@a'', snapshot = [''a'' \<mapsto> ''XXXX''], collection = ''Keywords'',
     replacements = Some [\<lparr>rep_start = 0, rep_len = 4, rep_originalText = ''@a'',
       rep_originalFont = Some exRegular\<rparr>], ts = 0\<rparr>"

text \<open>A backup whose list of records is empty, with the original text present.\<close>

definition emptyRecordsBackup :: backup where
  "emptyRecordsBackup = \<lparr>original = Some ''@a'', snapshot = Map.empty, collection = ''Keywords'',
     replacements = Some [], ts = 0\<rparr>"

text \<open>A document with one text node, which is the selection.\<close>

definition exSelectedHost :: host where
  "exSelectedHost = exHost\<lparr>nodes := [''1:2'' \<mapsto> TextNode (plainNode ''@a'')], selection := [''1:2'']\<rparr>"

text \<open>A placeholder whose first code unit is bold and whose second is regular.\<close>

definition twoFontNode :: text_node where
  "twoFontNode = \<lparr>content = [(CHR ''@'', exBold), (CHR ''a'', exRegular)], baseFont = exRegular,
     pluginData = None\<rparr>"

text \<open>A text in two fonts with three placeholders, each in one font.\<close>

definition exStyledNode :: text_node where
  "exStyledNode = \<lparr>content = map (\<lambda>c. (c, exBold)) ''@a''
       @ map (\<lambda>c. (c, exRegular)) '' and @e @icon/star'',
     baseFont = exRegular, pluginData = None\<rparr>"



text \<open>The same host with one more variable, named \<open>__proto__\<close>, whose value is the empty string.\<close>

definition exProtoHost :: host where
  "exProtoHost = exHost\<lparr>stringVariables := stringVariables exHost @ [constVar ''__proto__'' []]\<rparr>"

section \<open>The planning loop\<close>

lemma resolvedMatches_Nil [simp]: "resolvedMatches res [] = []"
  by (simp add: resolvedMatches_def map_filter_simps)

lemma resolvedMatches_Cons:
  "resolvedMatches res (m # ms) =
     (case res (mkey m) of
        None \<Rightarrow> resolvedMatches res ms
      | Some v \<Rightarrow> (m, v) # resolvedMatches res ms)"
  by (simp add: resolvedMatches_def map_filter_simps split: option.splits)

lemma resolvedMatches_empty_iff:
  "resolvedMatches res ms = [] \<longleftrightarrow> (\<forall>m \<in> set ms. res (mkey m) = None)"
  by (induction ms) (auto simp: resolvedMatches_Cons split: option.splits)

text \<open>
  Nothing the planning loop awaits throws: \<^verbatim>\<open>resolveVariableValue\<close> catches what its
  \<^verbatim>\<open>try\<close> block throws.
\<close>

lemma resolveVariableValue_returns:
  "resolveVariableValue v c \<noteq> Throws"
  by (simp add: resolveVariableValue_def split: outcome.splits)

lemma resolvedValue_returns:
  "resolvedValue h coll node k = Returns (valueIn h coll node k)"
  using resolveVariableValue_returns[of _ "Some node"]
  by (auto simp: valueIn_def resolvedValue_def split: option.splits outcome.splits)

lemma planMatches_returns:
  "planMatches h coll node ms p = Returns (returned (planMatches h coll node ms p))"
  by (induction ms arbitrary: p) (auto simp: resolvedValue_returns split: option.splits)

lemma planMatches_ops:
  "p_ops (returned (planMatches h coll node ms p)) =
     p_ops p @ map (opOf node) (resolvedMatches (valueIn h coll node) ms)"
  by (induction ms arbitrary: p)
     (auto simp: resolvedValue_returns resolvedMatches_Cons planStep_def opOf_def Let_def
           split: option.splits)

lemma planMatches_replacements:
  "p_replacements (returned (planMatches h coll node ms p)) =
     p_replacements p @ recsFrom node (runningDelta p) (resolvedMatches (valueIn h coll node) ms)"
  by (induction ms arbitrary: p)
     (auto simp: resolvedValue_returns resolvedMatches_Cons planStep_def Let_def split: option.splits)

lemma planMatches_snapshot:
  "p_snapshot (returned (planMatches h coll node ms p)) k =
     (if k \<in> mkey ` set ms \<and> valueIn h coll node k \<noteq> None \<and> k \<noteq> ''__proto__''
      then valueIn h coll node k else p_snapshot p k)"
  by (induction ms arbitrary: p)
     (auto simp: resolvedValue_returns planStep_def setProperty_def Let_def split: option.splits)

lemma planMatches_hasIcon:
  "hasIconReplacement (returned (planMatches h coll node ms p)) \<longleftrightarrow>
     hasIconReplacement p \<or> (\<exists>mv \<in> set (resolvedMatches (valueIn h coll node) ms). isIconKey (mkey (fst mv)))"
  by (induction ms arbitrary: p)
     (auto simp: resolvedValue_returns resolvedMatches_Cons planStep_def Let_def split: option.splits)

lemma recsFrom_starts:
  "map rep_start (recsFrom node d mvs)
     = shifted d (map (\<lambda>mv. (mstart (fst mv), mlen (fst mv), snd mv)) mvs)"
  by (induction node d mvs rule: recsFrom.induct) auto

lemma recsFrom_fields:
  "length (recsFrom node d mvs) = length mvs"
  "map rep_len (recsFrom node d mvs) = map (\<lambda>mv. int (length (snd mv))) mvs"
  "map rep_originalText (recsFrom node d mvs) = map (\<lambda>mv. mtext (fst mv)) mvs"
  "map rep_originalFont (recsFrom node d mvs) = map (\<lambda>mv. captureFont node (mstart (fst mv))) mvs"
  by (induction node d mvs rule: recsFrom.induct) auto

section \<open>The scanner\<close>

lemma dotSegments_le: "dotSegments s \<le> length s"
proof (induction s rule: dotSegments.induct)
  case 1
  then show ?case by simp
next
  case (2 c r)
  have "length (takeWhile isKeyChar r) + length (dropWhile isKeyChar r) = length r"
    by (metis length_append takeWhile_dropWhile_id)
  with 2 show ?case by auto
qed

lemma keyLength_le: "keyLength s \<le> length s"
proof -
  have "length (takeWhile isKeyChar s) + length (dropWhile isKeyChar s) = length s"
    by (metis length_append takeWhile_dropWhile_id)
  with dotSegments_le[of "dropWhile isKeyChar s"] show ?thesis
    by (auto simp: keyLength_def)
qed

lemma keyLength_wt_le: "keyLength_wt s \<le> length s"
  by (simp add: keyLength_wt_def length_takeWhile_le)

lemma wfMatches_shift:
  "wfMatches (pos + k) (drop k txt) ms \<Longrightarrow> k \<le> length txt \<Longrightarrow> wfMatches pos txt ms"
proof (cases ms)
  case Nil
  then show ?thesis by simp
next
  case (Cons m ms')
  assume a: "wfMatches (pos + k) (drop k txt) ms" "k \<le> length txt"
  with Cons have b: "pos + k \<le> mstart m" by simp
  then have e1: "mstart m - (pos + k) + k = mstart m - pos"
    and e2: "mstart m + mlen m - (pos + k) + k = mstart m + mlen m - pos" by (arith+)
  from a Cons show ?thesis by (auto simp: e1 e2)
qed

lemma execAll_wf:
  "(\<And>r. kl r \<le> length r) \<Longrightarrow> wfMatches pos txt (execAll kl pos txt)"
proof (induction kl pos "txt" rule: execAll.induct)
  case (1 kl pos)
  then show ?case by simp
next
  case (2 kl pos c r)
  show ?case
  proof (cases "c = CHR ''@'' \<and> 0 < kl r")
    case True
    with 2(1)[OF True] 2(3) have "wfMatches (pos + Suc (kl r)) (drop (kl r) r) (execAll kl (pos + Suc (kl r)) (drop (kl r) r))"
      by simp
    with True 2(3)[of r] show ?thesis by simp
  next
    case False
    with 2(2)[OF False] 2(3) have "wfMatches (Suc pos) r (execAll kl (Suc pos) r)" by simp
    then have "wfMatches pos (c # r) (execAll kl (Suc pos) r)"
      using wfMatches_shift[of pos 1 "c # r"] by simp
    with False show ?thesis by auto
  qed
qed

lemma scan_wf: "wfMatches 0 txt (scanPlaceholders txt)"
  unfolding scanPlaceholders_def by (rule execAll_wf) (rule keyLength_le)

lemma scan_wt_wf: "wfMatches 0 txt (scanPlaceholders_wt txt)"
  unfolding scanPlaceholders_wt_def by (rule execAll_wf) (rule keyLength_wt_le)

lemma execAll_cong:
  "(\<And>r. set r \<subseteq> set txt \<Longrightarrow> kl r = kl' r) \<Longrightarrow> execAll kl pos txt = execAll kl' pos txt"
proof (induction kl pos "txt" rule: execAll.induct)
  case (1 kl pos)
  then show ?case by simp
next
  case (2 kl pos c r)
  have e: "kl r = kl' r" using 2(3)[of r] by auto
  show ?case
  proof (cases "c = CHR ''@'' \<and> 0 < kl r")
    case True
    have "execAll kl (pos + Suc (kl r)) (drop (kl r) r) = execAll kl' (pos + Suc (kl r)) (drop (kl r) r)"
    proof (rule 2(1)[OF True])
      fix q assume "set q \<subseteq> set (drop (kl r) r)"
      then have "set q \<subseteq> set (c # r)" using set_drop_subset[of "kl r" r] by auto
      then show "kl q = kl' q" by (rule 2(3))
    qed
    with True e show ?thesis by simp
  next
    case False
    have "execAll kl (Suc pos) r = execAll kl' (Suc pos) r"
    proof (rule 2(2)[OF False])
      fix q assume "set q \<subseteq> set r"
      then have "set q \<subseteq> set (c # r)" by auto
      then show "kl q = kl' q" by (rule 2(3))
    qed
    with False e show ?thesis by auto
  qed
qed

lemma keyLength_dotless:
  assumes "CHR ''.'' \<notin> set r"
  shows "keyLength r = keyLength_wt r"
proof -
  have tw: "takeWhile isKeyChar_wt r = takeWhile isKeyChar r"
    by (rule takeWhile_cong) (use assms in \<open>auto simp: isKeyChar_wt_def\<close>)
  have "dotSegments (dropWhile isKeyChar r) = 0"
  proof (cases "dropWhile isKeyChar r")
    case Nil
    then show ?thesis by (simp only: dotSegments.simps)
  next
    case (Cons c q)
    then have "c \<in> set r" by (metis list.set_intros(1) set_dropWhileD)
    with assms have "c \<noteq> CHR ''.''" by auto
    with Cons show ?thesis by simp
  qed
  then show ?thesis by (simp add: keyLength_def keyLength_wt_def tw)
qed

lemma scan_dotless:
  "CHR ''.'' \<notin> set txt \<Longrightarrow> scanPlaceholders txt = scanPlaceholders_wt txt"
  unfolding scanPlaceholders_def scanPlaceholders_wt_def
  by (rule execAll_cong) (auto intro: keyLength_dotless)

section \<open>Splices applied from the last to the first\<close>

lemma wfSpans_le: "wfSpans pos n xs \<Longrightarrow> pos \<le> n"
  by (induction pos n xs rule: wfSpans.induct) auto

lemma wfSpans_mono: "wfSpans pos n xs \<Longrightarrow> pos' \<le> pos \<Longrightarrow> wfSpans pos' n xs"
  by (cases xs) auto

lemma wfSpans_bounds:
  "wfSpans pos n xs \<Longrightarrow> (s, r, y) \<in> set xs \<Longrightarrow> pos \<le> s \<and> s + r \<le> n"
proof (induction pos n xs rule: wfSpans.induct)
  case (1 pos n)
  then show ?case by simp
next
  case (2 pos n s' r' y' xs)
  from 2(2) have w: "wfSpans (s' + r') n xs" and p: "pos \<le> s'" by auto
  show ?case
  proof (cases "(s, r, y) = (s', r', y')")
    case True
    with p wfSpans_le[OF w] show ?thesis by simp
  next
    case False
    with 2 w have "s' + r' \<le> s \<and> s + r \<le> n" by auto
    with p show ?thesis by simp
  qed
qed

lemma wfSpans_cong:
  "map (\<lambda>x. (fst x, fst (snd x))) xs = map (\<lambda>x. (fst x, fst (snd x))) ys \<Longrightarrow>
   wfSpans pos n xs = wfSpans pos n ys"
proof (induction xs arbitrary: ys pos)
  case Nil
  then show ?case by simp
next
  case (Cons x xs)
  then obtain y ys' where ys: "ys = y # ys'" by (cases ys) auto
  with Cons.prems have h: "fst x = fst y" "fst (snd x) = fst (snd y)"
    and t: "map (\<lambda>x. (fst x, fst (snd x))) xs = map (\<lambda>x. (fst x, fst (snd x))) ys'" by auto
  obtain s r a where x: "x = (s, r, a)" by (cases x) auto
  obtain s' r' b where y: "y = (s', r', b)" by (cases y) auto
  from Cons.IH[OF t] h x y ys show ?case by simp
qed

lemma runLoop_snoc:
  "runLoop body (xs @ [x]) s =
     (case runLoop body xs s of (s', Some e) \<Rightarrow> (s', Some e) | (s', None) \<Rightarrow> body x s')"
  by (induction xs arbitrary: s) (auto split: prod.splits option.splits)

lemma runLoop_rev_rebuild:
  fixes \<alpha> :: "'s \<Rightarrow> 'b list" and sp :: "'a \<Rightarrow> nat \<times> nat" and ins :: "'a \<Rightarrow> 'b list \<Rightarrow> 'b list"
  assumes step: "\<And>x C s r. x \<in> set xs \<Longrightarrow> sp x = (s, r) \<Longrightarrow> s + r \<le> length (\<alpha> C) \<Longrightarrow>
             \<exists>C'. body x C = (C', None)
                \<and> \<alpha> C' = take s (\<alpha> C) @ ins x (take (s + r) (\<alpha> C)) @ drop (s + r) (\<alpha> C)"
    and start: "\<alpha> C0 = P @ T"
    and wf: "wfSpans (length P) (length P + length T)
               (map (\<lambda>x. (fst (sp x), snd (sp x), ins x (take (fst (sp x) + snd (sp x)) (\<alpha> C0)))) xs)"
  shows "\<exists>R. runLoop body (rev xs) C0 = (R, None)
           \<and> \<alpha> R = P @ rebuild (length P) T
               (map (\<lambda>x. (fst (sp x), snd (sp x), ins x (take (fst (sp x) + snd (sp x)) (\<alpha> C0)))) xs)"
  using step start wf
proof (induction xs arbitrary: P T)
  case Nil
  then show ?case by simp
next
  case (Cons x xs)
  let ?f = "\<lambda>x. (fst (sp x), snd (sp x), ins x (take (fst (sp x) + snd (sp x)) (\<alpha> C0)))"
  obtain s r where spx: "sp x = (s, r)" by (cases "sp x") auto
  from Cons.prems(3) spx have ps: "length P \<le> s"
    and wf': "wfSpans (s + r) (length P + length T) (map ?f xs)"
    by auto
  from wfSpans_le[OF wf'] have bound: "s + r \<le> length P + length T" .
  let ?k = "s + r - length P"
  let ?P = "P @ take ?k T" and ?T = "drop ?k T"
  have lenP: "length ?P = s + r" using bound ps by simp
  have "\<exists>R. runLoop body (rev xs) C0 = (R, None) \<and> \<alpha> R = ?P @ rebuild (length ?P) ?T (map ?f xs)"
  proof (rule Cons.IH)
    show "\<alpha> C0 = ?P @ ?T" using Cons.prems(2) by simp
    show "wfSpans (length ?P) (length ?P + length ?T) (map ?f xs)"
      using wf' bound ps by (simp add: add.commute)
    show "\<And>x' C s r. x' \<in> set xs \<Longrightarrow> sp x' = (s, r) \<Longrightarrow> s + r \<le> length (\<alpha> C) \<Longrightarrow>
             \<exists>C'. body x' C = (C', None)
                \<and> \<alpha> C' = take s (\<alpha> C) @ ins x' (take (s + r) (\<alpha> C)) @ drop (s + r) (\<alpha> C)"
      using Cons.prems(1) by simp
  qed
  then obtain R where R: "runLoop body (rev xs) C0 = (R, None)"
    and aR: "\<alpha> R = ?P @ rebuild (s + r) ?T (map ?f xs)" unfolding lenP by blast
  have "s + r \<le> length (\<alpha> R)" using aR lenP by simp
  with Cons.prems(1)[of x s r R] spx obtain C' where C': "body x R = (C', None)"
    and aC': "\<alpha> C' = take s (\<alpha> R) @ ins x (take (s + r) (\<alpha> R)) @ drop (s + r) (\<alpha> R)" by auto
  have t: "take s (\<alpha> R) = P @ take (s - length P) T"
    using aR lenP ps bound by (simp add: min_def)
  have d: "drop (s + r) (\<alpha> R) = rebuild (s + r) ?T (map ?f xs)"
    using aR lenP by simp
  have "take (s + r) (\<alpha> R) = ?P" using aR lenP by simp
  also have "\<dots> = take (s + r) (\<alpha> C0)" using Cons.prems(2) lenP by simp
  finally have pre: "take (s + r) (\<alpha> R) = take (s + r) (\<alpha> C0)" .
  show ?case using R C' aC' t d spx pre by (simp add: runLoop_snoc)
qed

lemma rebuild_skip:
  "wfSpans p n xs \<Longrightarrow> pos \<le> p \<Longrightarrow>
     rebuild pos T xs = take (p - pos) T @ rebuild p (drop (p - pos) T) xs"
proof (cases xs)
  case Nil
  then show ?thesis by simp
next
  case (Cons x xs')
  assume a: "wfSpans p n xs" "pos \<le> p"
  obtain s r y where x: "x = (s, r, y)" by (cases x) auto
  with a Cons have ps: "p \<le> s" by simp
  have "s - pos = (p - pos) + (s - p)" using ps a(2) by arith
  then have "take (s - pos) T = take (p - pos) T @ take (s - p) (drop (p - pos) T)"
    by (simp only: take_add)
  moreover have "drop (s + r - pos) T = drop (s + r - p) (drop (p - pos) T)"
    using ps a(2) by simp
  ultimately show ?thesis using Cons x by simp
qed

lemma map_rebuild: "map f (rebuild pos T xs) = rebuild pos (map f T) (map (\<lambda>(s, r, y). (s, r, map f y)) xs)"
  by (induction pos T xs rule: rebuild.induct) (auto simp: take_map drop_map)

lemma length_shifted [simp]: "length (shifted d xs) = length xs"
  by (induction d xs rule: shifted.induct) auto

lemma shifted_nth_sum:
  "k < length xs \<Longrightarrow>
   shifted d xs ! k = int (fst (xs ! k)) + d + (\<Sum>x\<leftarrow>take k xs. int (length (snd (snd x))) - int (fst (snd x)))"
proof (induction d xs arbitrary: k rule: shifted.induct)
  case (1 d)
  then show ?case by simp
next
  case (2 d s r y xs)
  show ?case
  proof (cases k)
    case 0
    then show ?thesis by simp
  next
    case (Suc k')
    with 2 show ?thesis by simp
  qed
qed

lemma rebuild_at_shifted:
  "wfSpans pos (pos + length T) xs \<Longrightarrow> int (length P) = int pos + d \<Longrightarrow> k < length xs \<Longrightarrow>
   0 \<le> shifted d xs ! k
   \<and> take (length (snd (snd (xs ! k)))) (drop (nat (shifted d xs ! k)) (P @ rebuild pos T xs))
       = snd (snd (xs ! k))"
proof (induction xs arbitrary: pos T P d k)
  case Nil
  then show ?case by simp
next
  case (Cons x xs)
  obtain s r y where x: "x = (s, r, y)" by (cases x) auto
  from Cons.prems(1) x have ps: "pos \<le> s" and w: "wfSpans (s + r) (pos + length T) xs" by auto
  from wfSpans_le[OF w] have b: "s + r \<le> pos + length T" .
  have lt: "length (take (s - pos) T) = s - pos" using ps b by simp
  show ?case
  proof (cases k)
    case 0
    have "nat (int s + d) = length P + (s - pos)" using Cons.prems(2) ps by simp
    moreover have "0 \<le> int s + d" using Cons.prems(2) ps by simp
    ultimately show ?thesis using 0 x lt by simp
  next
    case (Suc k')
    let ?P = "P @ take (s - pos) T @ y" and ?T = "drop (s + r - pos) T"
    let ?d = "d + (int (length y) - int r)"
    have w': "wfSpans (s + r) (s + r + length ?T) xs" using w ps b by (simp add: add.commute)
    have lp: "int (length ?P) = int (s + r) + ?d" using Cons.prems(2) ps lt by simp
    have k': "k' < length xs" using Cons.prems(3) Suc by simp
    from Cons.IH[OF w' lp k'] Suc x show ?thesis by simp
  qed
qed

lemma wfMatches_resolved:
  "wfMatches pos txt ms \<Longrightarrow>
   wfSpans pos (pos + length txt)
     (map (\<lambda>mv. (mstart (fst mv), mlen (fst mv), Y mv)) (resolvedMatches res ms))"
proof (induction ms arbitrary: pos "txt")
  case Nil
  then show ?case by simp
next
  case (Cons m ms)
  let ?e = "mstart m + mlen m"
  from Cons.prems have p: "pos \<le> mstart m" and b: "?e \<le> pos + length txt"
    and w: "wfMatches ?e (drop (?e - pos) txt) ms" by auto
  have "?e + length (drop (?e - pos) txt) = pos + length txt" using p b by simp
  with Cons.IH[OF w] have ih: "wfSpans ?e (pos + length txt)
      (map (\<lambda>mv. (mstart (fst mv), mlen (fst mv), Y mv)) (resolvedMatches res ms))"
    by (simp add: add.commute)
  show ?case
  proof (cases "res (mkey m)")
    case None
    with wfSpans_mono[OF ih, of pos] p show ?thesis by (simp add: resolvedMatches_Cons)
  next
    case (Some v)
    with ih p show ?thesis by (simp add: resolvedMatches_Cons)
  qed
qed

lemma resolved_mlen:
  "wfMatches pos txt ms \<Longrightarrow> mv \<in> set (resolvedMatches res ms) \<Longrightarrow>
     2 \<le> mlen (fst mv) \<and> length (mtext (fst mv)) = mlen (fst mv)"
proof (induction ms arbitrary: pos "txt")
  case Nil
  then show ?case by simp
next
  case (Cons m ms)
  let ?e = "mstart m + mlen m"
  from Cons.prems(1) have p: "pos \<le> mstart m" and b: "?e \<le> pos + length txt"
    and t: "mtext m = take (mlen m) (drop (mstart m - pos) txt)" and l: "2 \<le> mlen m"
    and w: "wfMatches ?e (drop (?e - pos) txt) ms" by auto
  from t p b have "length (mtext m) = mlen m" by simp
  with Cons.IH[OF w] Cons.prems(2) l show ?case
    by (auto simp: resolvedMatches_Cons split: option.splits)
qed

lemma rebuild_substituted:
  "wfMatches pos txt ms \<Longrightarrow>
   rebuild pos txt (map (\<lambda>mv. (mstart (fst mv), mlen (fst mv), snd mv)) (resolvedMatches res ms))
     = substituted res pos txt ms"
proof (induction ms arbitrary: pos "txt")
  case Nil
  then show ?case by simp
next
  case (Cons m ms)
  let ?e = "mstart m + mlen m"
  let ?rest = "map (\<lambda>mv. (mstart (fst mv), mlen (fst mv), snd mv)) (resolvedMatches res ms)"
  from Cons.prems have p: "pos \<le> mstart m" and b: "?e \<le> pos + length txt"
    and t: "mtext m = take (mlen m) (drop (mstart m - pos) txt)"
    and w: "wfMatches ?e (drop (?e - pos) txt) ms" by auto
  note ih = Cons.IH[OF w]
  show ?case
  proof (cases "res (mkey m)")
    case None
    have ws: "wfSpans ?e (?e + length (drop (?e - pos) txt)) ?rest"
      by (rule wfMatches_resolved[OF w])
    have "?e - pos = (mstart m - pos) + mlen m" using p by arith
    then have "take (?e - pos) txt = take (mstart m - pos) txt @ mtext m"
      by (simp only: take_add t)
    with rebuild_skip[OF ws, of pos "txt"] p ih None show ?thesis
      by (simp add: resolvedMatches_Cons)
  next
    case (Some v)
    with ih show ?thesis by (simp add: resolvedMatches_Cons)
  qed
qed

lemma substituted_unresolved:
  "wfMatches pos txt ms \<Longrightarrow> resolvedMatches res ms = [] \<Longrightarrow> substituted res pos txt ms = txt"
  using rebuild_substituted[of pos "txt" ms res] by simp

section \<open>The loop that applies the operations\<close>

lemma insertCharacters_at:
  "s \<le> length C \<Longrightarrow>
   insertCharacters base (int s) v C
     = Inr (take s C @ map (\<lambda>c. (c, inheritFont base C s)) v @ drop s C)"
  by (simp add: insertCharacters_def)

lemma setRangeFontName_at:
  "length A = s \<Longrightarrow> B \<noteq> [] \<Longrightarrow> f \<in> loaded \<Longrightarrow>
   setRangeFontName loaded (int s) (int s + int (length B)) f (A @ B @ D)
     = Inr (A @ map (\<lambda>cf. (fst cf, f)) B @ D)"
  by (simp add: setRangeFontName_def nat_add_distrib)

lemma setRangeFontName_unloaded:
  "f \<notin> loaded \<Longrightarrow> \<exists>e. setRangeFontName loaded a b f T = Inl e"
  by (simp add: setRangeFontName_def)

lemma deleteCharacters_at:
  "length A = s \<Longrightarrow>
   deleteCharacters (int s) (int s + int (length B)) (A @ B @ D) = Inr (A @ D)"
  by (simp add: deleteCharacters_def nat_add_distrib)

lemma inheritFont_take:
  "0 < r \<Longrightarrow> s + r \<le> length C \<Longrightarrow> inheritFont base (take (s + r) C) s = inheritFont base C s"
  by (cases C) (auto simp: inheritFont_def)

lemma deleteOld_at:
  "length A = op_start op + length (insertText op) \<Longrightarrow> length B = removeLen op \<Longrightarrow>
   deleteOld op (A @ B @ D) = (A @ D, None)"
  using deleteCharacters_at[of A "op_start op + length (insertText op)" B D]
  by (simp add: deleteOld_def)

lemma styleInserted_at:
  assumes "length A = op_start op" "B = map (\<lambda>c. (c, g)) (insertText op)" "insertText op \<noteq> []"
     "il \<longrightarrow> iconFont \<in> loaded"
  shows "styleInserted loaded iconFont il op (A @ B @ D)
     = (A @ map (\<lambda>c. (c, if isIcon op \<and> il then iconFont
                          else case op_originalFont op of
                                 Some f \<Rightarrow> if f \<in> loaded then f else g
                               | None \<Rightarrow> g)) (insertText op) @ D, None)"
proof -
  have len: "length B = length (insertText op)" and ne: "B \<noteq> []" using assms by auto
  have set: "f \<in> loaded \<Longrightarrow>
      setRangeFontName loaded (int (op_start op)) (int (op_start op) + int (length (insertText op))) f (A @ B @ D)
        = Inr (A @ map (\<lambda>c. (c, f)) (insertText op) @ D)" for f
    using setRangeFontName_at[OF assms(1) ne, of f loaded D] assms(2) by (simp add: comp_def)
  show ?thesis
  proof (cases "isIcon op \<and> il")
    case True
    with assms(4) set[of iconFont] show ?thesis by (simp add: styleInserted_def)
  next
    case False
    show ?thesis
    proof (cases "op_originalFont op")
      case None
      with False assms(2) show ?thesis by (auto simp: styleInserted_def)
    next
      case (Some f)
      show ?thesis
      proof (cases "f \<in> loaded")
        case True
        with False Some set[of f] show ?thesis by (auto simp: styleInserted_def)
      next
        case False': False
        from setRangeFontName_unloaded[OF False'] obtain e where
          "setRangeFontName loaded (int (op_start op)) (int (op_start op) + int (length (insertText op))) f (A @ B @ D) = Inl e"
          by blast
        with False Some False' assms(2) show ?thesis by (auto simp: styleInserted_def)
      qed
    qed
  qed
qed

lemma applyOp_step:
  assumes b: "op_start op + removeLen op \<le> length C" and r: "0 < removeLen op"
    and il: "il \<longrightarrow> iconFont \<in> loaded"
  shows "applyOp base loaded iconFont il op C
     = (take (op_start op) C
        @ map (\<lambda>c. (c, spanFont base loaded iconFont il op (take (op_start op + removeLen op) C)))
            (insertText op)
        @ drop (op_start op + removeLen op) C, None)"
proof -
  let ?s = "op_start op" and ?r = "removeLen op" and ?v = "insertText op"
  have split: "drop ?s C = take ?r (drop ?s C) @ drop (?s + ?r) C"
    by (metis add.commute append_take_drop_id drop_drop)
  have lenA: "length (take ?s C) = ?s" and lenB: "length (take ?r (drop ?s C)) = ?r"
    using b by auto
  show ?thesis
  proof (cases "?v = []")
    case True
    have "deleteOld op (take ?s C @ take ?r (drop ?s C) @ drop (?s + ?r) C)
        = (take ?s C @ drop (?s + ?r) C, None)"
      by (rule deleteOld_at) (use True lenA lenB in auto)
    moreover have "take ?s C @ take ?r (drop ?s C) @ drop (?s + ?r) C = C"
      using split by (metis append_take_drop_id)
    ultimately show ?thesis using True by (simp add: applyOp_def)
  next
    case False
    let ?g = "inheritFont base C ?s"
    let ?B = "map (\<lambda>c. (c, ?g)) ?v"
    have ins: "insertCharacters base (int ?s) ?v C = Inr (take ?s C @ ?B @ drop ?s C)"
      using b by (simp add: insertCharacters_at)
    let ?h = "if isIcon op \<and> il then iconFont
              else case op_originalFont op of Some f \<Rightarrow> if f \<in> loaded then f else ?g | None \<Rightarrow> ?g"
    have sty: "styleInserted loaded iconFont il op (take ?s C @ ?B @ drop ?s C)
        = (take ?s C @ map (\<lambda>c. (c, ?h)) ?v @ drop ?s C, None)"
      by (rule styleInserted_at) (use False lenA il in auto)
    have del: "deleteOld op ((take ?s C @ map (\<lambda>c. (c, ?h)) ?v) @ take ?r (drop ?s C) @ drop (?s + ?r) C)
        = ((take ?s C @ map (\<lambda>c. (c, ?h)) ?v) @ drop (?s + ?r) C, None)"
      by (rule deleteOld_at) (use lenA lenB in auto)
    have h: "?h = spanFont base loaded iconFont il op (take (?s + ?r) C)"
      using inheritFont_take[OF r b, of base] by (simp add: spanFont_def split: option.splits)
    from del split have "deleteOld op (take ?s C @ map (\<lambda>c. (c, ?h)) ?v @ drop ?s C)
        = (take ?s C @ map (\<lambda>c. (c, ?h)) ?v @ drop (?s + ?r) C, None)"
      by simp
    with False ins sty h show ?thesis by (simp add: applyOp_def)
  qed
qed

lemma spanFont_take:
  "0 < removeLen op \<Longrightarrow> op_start op + removeLen op \<le> length T \<Longrightarrow>
   spanFont base loaded iconFont il op (take (op_start op + removeLen op) T)
     = spanFont base loaded iconFont il op T"
  using inheritFont_take[of "removeLen op" "op_start op" T base]
  by (simp add: spanFont_def split: option.splits)

lemma replace_loop:
  assumes wf: "wfSpans 0 (length T) (map (\<lambda>op. (op_start op, removeLen op, insertText op)) ops)"
    and pos: "\<forall>op \<in> set ops. 0 < removeLen op"
    and il: "il \<longrightarrow> iconFont \<in> loaded"
  shows "runLoop (applyOp base loaded iconFont il) (rev ops) T
       = (rebuild 0 T (map (valueSplice base loaded iconFont il T) ops), None)"
proof -
  let ?sp = "\<lambda>op. (op_start op, removeLen op)"
  let ?ins = "\<lambda>op pre. map (\<lambda>c. (c, spanFont base loaded iconFont il op pre)) (insertText op)"
  let ?xs = "map (\<lambda>x. (fst (?sp x), snd (?sp x), ?ins x (take (fst (?sp x) + snd (?sp x)) T))) ops"
  have wf': "wfSpans 0 (length T) ?xs"
    using wf by (subst wfSpans_cong[where ys = "map (\<lambda>op. (op_start op, removeLen op, insertText op)) ops"])
       (simp_all add: comp_def)
  have gen: "\<exists>R. runLoop (applyOp base loaded iconFont il) (rev ops) T = (R, None)
       \<and> (\<lambda>C. C) R = [] @ rebuild (length ([] :: styled)) T ?xs"
  proof (rule runLoop_rev_rebuild[where \<alpha> = "\<lambda>C. C" and sp = ?sp and ins = ?ins and P = "[]"])
    show "T = [] @ T" by simp
    show "wfSpans (length ([] :: styled)) (length ([] :: styled) + length T) ?xs" using wf' by simp
  next
    fix x and C :: styled and s r
    assume "x \<in> set ops" "(op_start x, removeLen x) = (s, r)" "s + r \<le> length C"
    with applyOp_step[of x C il iconFont loaded base] pos il
    show "\<exists>C'. applyOp base loaded iconFont il x C = (C', None)
         \<and> C' = take s C @ ?ins x (take (s + r) C) @ drop (s + r) C"
      by auto
  qed
  have eq: "?xs = map (valueSplice base loaded iconFont il T) ops"
  proof (rule map_cong[OF refl])
    fix op assume op: "op \<in> set ops"
    then have "(op_start op, removeLen op, insertText op)
        \<in> set (map (\<lambda>op. (op_start op, removeLen op, insertText op)) ops)" by force
    from wfSpans_bounds[OF wf this] pos op
    show "(fst (?sp op), snd (?sp op), ?ins op (take (fst (?sp op) + snd (?sp op)) T))
        = valueSplice base loaded iconFont il T op"
      by (simp add: valueSplice_def spanFont_take)
  qed
  from gen obtain R where R: "runLoop (applyOp base loaded iconFont il) (rev ops) T = (R, None)"
    and RR: "R = rebuild 0 T ?xs" by auto
  show ?thesis unfolding R RR eq ..
qed

section \<open>What a substitution pass returns and leaves\<close>

lemma passHost_fonts:
  "availableFonts (passHost cn h) = availableFonts h"
  "loadedFonts (passHost cn h) = loadedFonts h"
  "now (passHost cn h) = now h"
  by (auto simp: passHost_def getOrCreateCollection_def Let_def split: option.splits)

lemma safeLoad_fonts:
  "loadedFonts (safeLoadFontsForNode node (passHost cn h)) = loadedFonts (safeLoadFontsForNode node h)"
  "availableFonts (safeLoadFontsForNode node h) = availableFonts h"
  "now (safeLoadFontsForNode node h) = now h"
  by (simp_all add: safeLoadFontsForNode_def safeLoadFonts_def passHost_fonts)

lemma replace_unfold:
  "replacePlaceholdersInNode ps cn h node =
     (if scanPlaceholders (characters node) = []
      then (Inr \<lparr>changed = False, res_snapshot = None\<rparr>, clearNodeBackup node, h)
      else
        (let p = returned (planMatches (passHost cn h) (passCollection cn h) node
                   (scanPlaceholders (characters node)) emptyPlan)
         in if p_ops p = []
            then (Inr \<lparr>changed = False, res_snapshot = None\<rparr>, clearNodeBackup node, passHost cn h)
            else
              (let h2 = safeLoadFontsForNode node (passHost cn h);
                   lf = (if hasIconReplacement p \<and> iconFontFamily ps \<noteq> []
                         then loadFontAsync (iconFontOf ps) h2 else (False, h2));
                   node1 = saveNodeBackup node (characters node) (p_snapshot p)
                             (coll_name (passCollection cn h)) (p_replacements p) (now (snd lf));
                   lp = runLoop (applyOp (baseFont node1) (loadedFonts (snd lf)) (iconFontOf ps) (fst lf))
                          (rev (p_ops p)) (content node1)
               in (case snd lp of
                     Some e \<Rightarrow> Inl e
                   | None \<Rightarrow> Inr \<lparr>changed = True, res_snapshot = Some (p_snapshot p)\<rparr>,
                   node1\<lparr>content := fst lp\<rparr>, snd lf))))"
proof -
  obtain P where P: "planMatches (snd (getOrCreateCollection (collectionArg cn) h))
      (fst (getOrCreateCollection (collectionArg cn) h)) node (scanPlaceholders (characters node)) emptyPlan
    = Returns P"
    using planMatches_returns by blast
  show ?thesis
    by (simp add: replacePlaceholdersInNode_def passHost_def passCollection_def Let_def split_beta P)
qed

lemma actionableMatches_alt:
  "actionableMatches cn h node
     = resolvedMatches (valueIn (passHost cn h) (passCollection cn h) node)
         (scanPlaceholders (characters node))"
proof -
  have "resolver cn h node = valueIn (passHost cn h) (passCollection cn h) node"
    by (rule ext) (simp add: resolver_def)
  then show ?thesis by (simp add: actionableMatches_def)
qed

lemma cleared_node:
  "readNodeBackup (clearNodeBackup node) = None"
  "content (clearNodeBackup node) = content node"
  "characters (clearNodeBackup node) = characters node"
  by (simp_all add: readNodeBackup_def clearNodeBackup_def characters_def)

lemma replace_unchanged:
  assumes "actionableMatches cn h node = []"
  shows "fst (replacePlaceholdersInNode ps cn h node) = Inr \<lparr>changed = False, res_snapshot = None\<rparr>"
    and "nodeAfter (replacePlaceholdersInNode ps cn h node) = clearNodeBackup node"
proof -
  have "p_ops (returned (planMatches (passHost cn h) (passCollection cn h) node
      (scanPlaceholders (characters node)) emptyPlan)) = []"
    using assms by (simp add: planMatches_ops emptyPlan_def actionableMatches_alt)
  then show "fst (replacePlaceholdersInNode ps cn h node) = Inr \<lparr>changed = False, res_snapshot = None\<rparr>"
    and "nodeAfter (replacePlaceholdersInNode ps cn h node) = clearNodeBackup node"
    by (simp_all add: replace_unfold nodeAfter_def)
qed

lemma replace_changed:
  assumes A: "actionableMatches cn h node \<noteq> []"
  shows "replacePlaceholdersInNode ps cn h node =
     (Inr \<lparr>changed = True, res_snapshot = Some (p_snapshot (returned (planMatches (passHost cn h)
               (passCollection cn h) node (scanPlaceholders (characters node)) emptyPlan)))\<rparr>,
      (saveNodeBackup node (characters node)
         (p_snapshot (returned (planMatches (passHost cn h)
               (passCollection cn h) node (scanPlaceholders (characters node)) emptyPlan)))
         (coll_name (passCollection cn h)) (recsFrom node 0 (actionableMatches cn h node)) (now h))
        \<lparr>content := substitutedContent ps cn h node\<rparr>,
      (safeLoadFontsForNode node (passHost cn h))\<lparr>loadedFonts := loadedInPass ps cn h node\<rparr>)"
proof -
  let ?ms = "scanPlaceholders (characters node)"
  let ?h1 = "passHost cn h" and ?coll = "passCollection cn h"
  let ?p = "returned (planMatches ?h1 ?coll node ?ms emptyPlan)"
  let ?A = "actionableMatches cn h node"
  note Adef = actionableMatches_alt
  have ops: "p_ops ?p = map (opOf node) ?A"
    by (simp add: planMatches_ops emptyPlan_def Adef)
  have recs: "p_replacements ?p = recsFrom node 0 ?A"
    by (simp add: planMatches_replacements emptyPlan_def Adef)
  have icon: "hasIconReplacement ?p \<longleftrightarrow> (\<exists>mv \<in> set ?A. isIconKey (mkey (fst mv)))"
    by (simp add: planMatches_hasIcon emptyPlan_def Adef)
  have ms: "?ms \<noteq> []" using A by (auto simp: actionableMatches_def)
  have opsne: "map (opOf node) ?A \<noteq> []" using A by simp
  let ?h2 = "safeLoadFontsForNode node ?h1"
  let ?il = "iconLoadedIn ps cn h node"
  let ?loaded = "loadedInPass ps cn h node"
  have wfm: "wfMatches 0 (characters node) ?ms" by (rule scan_wf)
  have wf: "wfSpans 0 (length (content node))
      (map (\<lambda>op. (op_start op, removeLen op, insertText op)) (map (opOf node) ?A))"
    using wfMatches_resolved[OF wfm, of snd "valueIn ?h1 ?coll node"]
    by (simp add: Adef comp_def opOf_def characters_def)
  have rpos: "\<forall>op \<in> set (map (opOf node) ?A). 0 < removeLen op"
    using resolved_mlen[OF wfm, of _ "valueIn ?h1 ?coll node"]
    by (force simp: Adef opOf_def)
  have il: "?il \<longrightarrow> iconFontOf ps \<in> ?loaded" by (simp add: loadedInPass_def)
  note loop = replace_loop[OF wf rpos il, of "baseFont node"]
  have lf: "(if hasIconReplacement ?p \<and> iconFontFamily ps \<noteq> [] then loadFontAsync (iconFontOf ps) ?h2 else (False, ?h2))
      = (?il, ?h2\<lparr>loadedFonts := ?loaded\<rparr>)"
    by (auto simp: loadFontAsync_def icon iconLoadedIn_def loadedInPass_def safeLoad_fonts
          passHost_fonts)
  have nw: "now ?h2 = now h" by (simp add: safeLoad_fonts passHost_fonts)
  have sn: "baseFont (saveNodeBackup node a b c d e) = baseFont node"
       "content (saveNodeBackup node a b c d e) = content node" for a b c d e
    by (simp_all add: saveNodeBackup_def)
  show ?thesis
    unfolding replace_unfold Let_def lf
    using ms opsne
    by (simp add: ops recs nw sn loop substitutedContent_def)
qed

lemma replace_backup:
  assumes A: "actionableMatches cn h node \<noteq> []"
  shows "readNodeBackup (nodeAfter (replacePlaceholdersInNode ps cn h node))
     = Some \<lparr>original = Some (characters node),
             snapshot = p_snapshot (returned (planMatches (passHost cn h) (passCollection cn h) node
                          (scanPlaceholders (characters node)) emptyPlan)),
             collection = collectionArg (coll_name (passCollection cn h)),
             replacements = Some (recsFrom node 0 (actionableMatches cn h node)),
             ts = now h\<rparr>"
  by (simp add: replace_changed[OF A] nodeAfter_def readNodeBackup_def saveNodeBackup_def
        collectionArg_def)

lemma replace_records:
  "actionableMatches cn h node \<noteq> [] \<Longrightarrow>
   persistedRecords (nodeAfter (replacePlaceholdersInNode ps cn h node))
     = recsFrom node 0 (actionableMatches cn h node)"
  by (simp add: persistedRecords_def replace_backup)

lemma replace_snapshot:
  "actionableMatches cn h node \<noteq> [] \<Longrightarrow>
   persistedSnapshot (nodeAfter (replacePlaceholdersInNode ps cn h node)) k
     = (if k \<in> mkey ` set (scanPlaceholders (characters node)) \<and> k \<noteq> ''__proto__''
        then resolver cn h node k else None)"
  by (auto simp: persistedSnapshot_def replace_backup planMatches_snapshot emptyPlan_def resolver_def)

lemma replace_result:
  "actionableMatches cn h node \<noteq> [] \<Longrightarrow>
   fst (replacePlaceholdersInNode ps cn h node)
     = Inr \<lparr>changed = True,
            res_snapshot = Some (persistedSnapshot (nodeAfter (replacePlaceholdersInNode ps cn h node)))\<rparr>"
  by (simp add: persistedSnapshot_def replace_backup) (simp add: replace_changed)

lemma replace_returns:
  "\<exists>r. fst (replacePlaceholdersInNode ps cn h node) = Inr r"
  using replace_unchanged(1)[of cn h node ps] replace_result[of cn h node ps] by blast

lemma valueSplice_text:
  "map (\<lambda>(s, r, y). (s, r, map fst y)) (map (valueSplice base loaded iconFont il T) (map (opOf node) mvs))
     = map (\<lambda>mv. (mstart (fst mv), mlen (fst mv), snd mv)) mvs"
  by (simp add: valueSplice_def opOf_def comp_def)

lemma substitutedContent_text:
  "map fst (substitutedContent ps cn h node)
     = rebuild 0 (characters node)
         (map (\<lambda>mv. (mstart (fst mv), mlen (fst mv), snd mv)) (actionableMatches cn h node))"
  by (simp only: substitutedContent_def map_rebuild valueSplice_text characters_def)

lemma replace_characters:
  "characters (nodeAfter (replacePlaceholdersInNode ps cn h node))
     = substituted (resolver cn h node) 0 (characters node) (scanPlaceholders (characters node))"
proof (cases "actionableMatches cn h node = []")
  case True
  with substituted_unresolved[OF scan_wf, of "resolver cn h node" "characters node"]
  show ?thesis by (simp add: replace_unchanged cleared_node actionableMatches_def)
next
  case False
  have "characters (nodeAfter (replacePlaceholdersInNode ps cn h node))
      = map fst (substitutedContent ps cn h node)"
    by (simp add: replace_changed[OF False] nodeAfter_def characters_def)
  also have "\<dots> = rebuild 0 (characters node)
      (map (\<lambda>mv. (mstart (fst mv), mlen (fst mv), snd mv)) (actionableMatches cn h node))"
    by (rule substitutedContent_text)
  also have "\<dots> = substituted (resolver cn h node) 0 (characters node) (scanPlaceholders (characters node))"
    unfolding actionableMatches_def by (rule rebuild_substituted[OF scan_wf])
  finally show ?thesis .
qed

section \<open>The whole-text evolution builds the same text\<close>

lemma buildOut_wt_returns:
  "buildOut_wt h coll node txt ms b = Returns (returned (buildOut_wt h coll node txt ms b))"
  by (induction ms arbitrary: b) (auto simp: resolvedValue_returns Let_def split: option.splits)

lemma buildOut_wt_substituted:
  "wfMatches (lastIndex b) (drop (lastIndex b) txt) ms \<Longrightarrow>
   out (returned (buildOut_wt h coll node txt ms b))
     @ drop (lastIndex (returned (buildOut_wt h coll node txt ms b))) txt
     = out b @ substituted (valueIn h coll node) (lastIndex b) (drop (lastIndex b) txt) ms"
proof (induction ms arbitrary: b)
  case Nil
  then show ?case by simp
next
  case (Cons m ms)
  let ?li = "lastIndex b" and ?s = "mstart m" and ?e = "mstart m + mlen m"
  from Cons.prems have p: "?li \<le> ?s"
    and t: "mtext m = take (mlen m) (drop (?s - ?li) (drop ?li txt))"
    and w: "wfMatches ?e (drop (?e - ?li) (drop ?li txt)) ms" by auto
  have d1: "drop (?e - ?li) (drop ?li txt) = drop ?e txt" using p by simp
  have d2: "drop (?s - ?li) (drop ?li txt) = drop ?s txt" using p by simp
  let ?b' = "case valueIn h coll node (mkey m) of
              Some replacement \<Rightarrow>
                \<lparr>out = (out b @ slice txt ?li ?s) @ replacement, lastIndex = ?e,
                 b_snapshot = setProperty (b_snapshot b) (mkey m) replacement\<rparr>
            | None \<Rightarrow>
                \<lparr>out = (out b @ slice txt ?li ?s) @ slice txt ?s ?e,
                 lastIndex = ?e, b_snapshot = b_snapshot b\<rparr>"
  have li: "lastIndex ?b' = ?e" by (simp split: option.splits)
  have ou: "out ?b' = out b @ take (?s - ?li) (drop ?li txt)
      @ (case valueIn h coll node (mkey m) of None \<Rightarrow> mtext m | Some v \<Rightarrow> v)"
    using t d2 by (simp add: slice_def split: option.splits)
  have w': "wfMatches (lastIndex ?b') (drop (lastIndex ?b') txt) ms" using w d1 li by simp
  have step: "buildOut_wt h coll node txt (m # ms) b = buildOut_wt h coll node txt ms ?b'"
    by (simp add: Let_def resolvedValue_returns split: option.splits)
  from Cons.IH[OF w'] have "out (returned (buildOut_wt h coll node txt ms ?b'))
        @ drop (lastIndex (returned (buildOut_wt h coll node txt ms ?b'))) txt
      = out ?b' @ substituted (valueIn h coll node) (lastIndex ?b') (drop (lastIndex ?b') txt) ms" .
  moreover have "?e - ?li + ?li = ?e" using p by arith
  ultimately show ?case unfolding step li ou by (simp add: d1)
qed

lemma characters_setCharacters [simp]: "characters (setCharacters s n) = s"
  by (simp add: characters_def setCharacters_def comp_def)

lemma replace_wt_unfold:
  "replacePlaceholdersInNode_wt cn h node =
     (if scanPlaceholders_wt (characters node) = []
      then (Inr \<lparr>changed = False, res_snapshot = None\<rparr>, node, h)
      else
        (let b = returned (buildOut_wt (passHost cn h) (passCollection cn h) node (characters node)
                   (scanPlaceholders_wt (characters node))
                   \<lparr>out = [], lastIndex = 0, b_snapshot = Map.empty\<rparr>);
             h2 = safeLoadFontsForNode node (passHost cn h)
         in (Inr \<lparr>changed = True, res_snapshot = Some (b_snapshot b)\<rparr>,
             setCharacters (out b @ drop (lastIndex b) (characters node))
               (saveNodeBackup_wt node (characters node) (b_snapshot b)
                  (coll_name (passCollection cn h)) (now h2)),
             h2)))"
proof -
  obtain B where B: "buildOut_wt (snd (getOrCreateCollection (collectionArg cn) h))
      (fst (getOrCreateCollection (collectionArg cn) h)) node (characters node)
      (scanPlaceholders_wt (characters node)) \<lparr>out = [], lastIndex = 0, b_snapshot = Map.empty\<rparr>
    = Returns B"
    using buildOut_wt_returns by blast
  show ?thesis
    by (simp add: replacePlaceholdersInNode_wt_def passHost_def passCollection_def Let_def split_beta B)
qed

lemma replace_wt_characters:
  "characters (nodeAfter (replacePlaceholdersInNode_wt cn h node))
     = substituted (resolver cn h node) 0 (characters node) (scanPlaceholders_wt (characters node))"
proof (cases "scanPlaceholders_wt (characters node) = []")
  case True
  then show ?thesis by (simp add: replacePlaceholdersInNode_wt_def nodeAfter_def)
next
  case False
  have r: "resolver cn h node = valueIn (passHost cn h) (passCollection cn h) node"
    by (rule ext) (simp add: resolver_def)
  have "wfMatches (lastIndex \<lparr>out = [], lastIndex = 0, b_snapshot = Map.empty\<rparr>)
      (drop (lastIndex \<lparr>out = [], lastIndex = 0, b_snapshot = Map.empty\<rparr>) (characters node))
      (scanPlaceholders_wt (characters node))"
    using scan_wt_wf[of "characters node"] by simp
  from buildOut_wt_substituted[OF this, of "passHost cn h" "passCollection cn h" node] False
  show ?thesis
    by (simp add: replace_wt_unfold nodeAfter_def Let_def r)
qed

section \<open>Undoing splices\<close>

lemma inverse_rebuild:
  "wfSpans pos (pos + length T) xs \<Longrightarrow> T = drop pos T0 \<Longrightarrow> int pos' = int pos + d \<Longrightarrow>
   wfSpans pos' (pos' + length (rebuild pos T xs)) (inverseSplices d T0 xs)
   \<and> rebuild pos' (rebuild pos T xs) (inverseSplices d T0 xs) = T"
proof (induction xs arbitrary: pos T pos' d)
  case Nil
  then show ?case by simp
next
  case (Cons x xs)
  obtain s r y where x: "x = (s, r, y)" by (cases x) auto
  from Cons.prems(1) x have ps: "pos \<le> s" and w: "wfSpans (s + r) (pos + length T) xs" by auto
  from wfSpans_le[OF w] have b: "s + r \<le> pos + length T" .
  let ?T = "drop (s + r - pos) T" and ?d = "d + (int (length y) - int r)"
  let ?p = "nat (int s + d) + length y"
  have s': "nat (int s + d) = pos' + (s - pos)" using Cons.prems(3) ps by simp
  have w': "wfSpans (s + r) (s + r + length ?T) xs" using w ps b by (simp add: add.commute)
  have T': "?T = drop (s + r) T0" using Cons.prems(2) ps by simp
  have p': "int ?p = int (s + r) + ?d" using Cons.prems(3) ps by simp
  from Cons.IH[OF w' T' p'] have ih1: "wfSpans ?p (?p + length (rebuild (s + r) ?T xs)) (inverseSplices ?d T0 xs)"
    and ih2: "rebuild ?p (rebuild (s + r) ?T xs) (inverseSplices ?d T0 xs) = ?T" by auto
  have lt: "length (take (s - pos) T) = s - pos" using ps b by simp
  define R where "R = rebuild (s + r) ?T xs"
  define F where "F = rebuild pos T (x # xs)"
  have F: "F = take (s - pos) T @ y @ R" by (simp add: F_def R_def x)
  have len: "pos' + length F = ?p + length R" using F lt s' by simp
  have span: "take r (drop s T0) = take r (drop (s - pos) T)" using Cons.prems(2) ps by simp
  have "s - pos + r = s + r - pos" using ps by arith
  then have join: "take (s - pos) T @ take r (drop (s - pos) T) @ ?T = T"
    by (metis append_assoc append_take_drop_id take_add)
  have t1: "take (nat (int s + d) - pos') F = take (s - pos) T"
    using F s' lt by simp
  have t2: "drop (?p - pos') F = R"
    using F s' lt by simp
  have inv: "inverseSplices d T0 (x # xs)
      = (nat (int s + d), length y, take r (drop s T0)) # inverseSplices ?d T0 xs"
    by (simp add: x)
  have g1: "wfSpans pos' (pos' + length F) (inverseSplices d T0 (x # xs))"
    unfolding inv using ih1 s' by (simp add: len R_def)
  have "rebuild pos' F (inverseSplices d T0 (x # xs))
      = take (nat (int s + d) - pos') F @ take r (drop s T0)
        @ rebuild ?p (drop (?p - pos') F) (inverseSplices ?d T0 xs)"
    unfolding inv by simp
  also have "\<dots> = take (s - pos) T @ take r (drop (s - pos) T) @ ?T"
    unfolding t1 t2 span using ih2 by (simp add: R_def)
  finally have g2: "rebuild pos' F (inverseSplices d T0 (x # xs)) = T" using join by simp
  from g1 g2 show ?case by (simp add: F_def)
qed

lemma shifted_lower:
  "wfSpans p n xs \<Longrightarrow> z \<in> set (shifted d xs) \<Longrightarrow> int p + d \<le> z"
proof (induction xs arbitrary: p d)
  case Nil
  then show ?case by simp
next
  case (Cons x xs)
  obtain s r y where x: "x = (s, r, y)" by (cases x) auto
  from Cons.prems(1) x have ps: "p \<le> s" and w: "wfSpans (s + r) n xs" by auto
  show ?case
  proof (cases "z = int s + d")
    case True
    with ps show ?thesis by simp
  next
    case False
    with Cons.prems(2) x have "z \<in> set (shifted (d + (int (length y) - int r)) xs)" by simp
    from Cons.IH[OF w this] ps show ?thesis by simp
  qed
qed

lemma shifted_strict:
  "wfSpans p n xs \<Longrightarrow> noTie xs \<Longrightarrow> sorted_wrt (<) (shifted d xs)"
proof (induction xs arbitrary: p d)
  case Nil
  then show ?case by simp
next
  case (Cons x xs)
  obtain s r y where x: "x = (s, r, y)" by (cases x) auto
  from Cons.prems(1) x have ps: "p \<le> s" and w: "wfSpans (s + r) n xs" by auto
  let ?d = "d + (int (length y) - int r)"
  have nt: "noTie xs" using Cons.prems(2) x by (cases xs) auto
  have "int s + d < z" if z: "z \<in> set (shifted ?d xs)" for z
  proof (cases xs)
    case Nil
    with z show ?thesis by simp
  next
    case (Cons x' xs')
    obtain s' r' y' where x': "x' = (s', r', y')" by (cases x') auto
    from Cons.prems(2) x Cons x' have c: "y \<noteq> [] \<or> s + r < s'" by simp
    show ?thesis
    proof (cases "y = []")
      case False
      from shifted_lower[OF w z] False show ?thesis by (cases y) auto
    next
      case True
      with c have "s + r < s'" by simp
      with w Cons x' have "wfSpans (Suc (s + r)) n xs" by simp
      from shifted_lower[OF this z] True show ?thesis by simp
    qed
  qed
  with Cons.IH[OF w nt] x show ?case by simp
qed

lemma insort_key_snoc:
  "\<forall>y \<in> set ys. f y < f x \<Longrightarrow> insort_key f x ys = ys @ [x]"
  by (induction ys) auto

lemma sortDescending_rev:
  "sorted_wrt (<) (map rep_start reps) \<Longrightarrow> sortDescending reps = rev reps"
  unfolding sortDescending_def
  by (induction reps) (auto simp: insort_key_snoc)

lemma noTie_matches:
  "noTie (map (\<lambda>mv. (mstart (fst mv), mlen (fst mv), snd mv)) mvs) = noEmptyValueBeforeAdjacent mvs"
  by (induction mvs rule: noEmptyValueBeforeAdjacent.induct) auto


section \<open>The loop that restores the records\<close>

lemma captureFont_at:
  "s < length (content node) \<Longrightarrow> captureFont node s = Some (fontAt node s)"
proof -
  assume s: "s < length (content node)"
  have "nat (int s + 1) - nat (int s) = Suc 0" by simp
  moreover have "take (Suc 0) (drop s (content node)) = [content node ! s]"
    using s by (simp add: Cons_nth_drop_Suc[symmetric])
  ultimately show ?thesis
    using s by (simp add: captureFont_def getRangeFontName_def fontAt_def Let_def)
qed

lemma restoreRep_step:
  assumes s0: "0 \<le> rep_start rep" and r0: "0 \<le> rep_len rep"
    and b: "nat (rep_start rep) + nat (rep_len rep) \<le> length C"
    and f: "rep_originalFont rep = Some f" "f \<in> loaded"
    and t: "rep_originalText rep \<noteq> []"
  shows "restoreRep base loaded rep C
     = (take (nat (rep_start rep)) C @ map (\<lambda>c. (c, f)) (rep_originalText rep)
        @ drop (nat (rep_start rep) + nat (rep_len rep)) C, None)"
proof -
  let ?s = "nat (rep_start rep)" and ?r = "nat (rep_len rep)" and ?t = "rep_originalText rep"
  have si: "rep_start rep = int ?s" and ri: "rep_len rep = int ?r" using s0 r0 by simp_all
  let ?A = "take ?s C" and ?B = "map (\<lambda>c. (c, inheritFont base C ?s)) ?t" and ?D = "drop ?s C"
  have lenA: "length ?A = ?s" using b by simp
  have ins: "insertCharacters base (rep_start rep) ?t C = Inr (?A @ ?B @ ?D)"
    using insertCharacters_at[of ?s C base ?t] b si by simp
  have "setRangeFontName loaded (int ?s) (int ?s + int (length ?B)) f (?A @ ?B @ ?D)
      = Inr (?A @ map (\<lambda>cf. (fst cf, f)) ?B @ ?D)"
    by (rule setRangeFontName_at) (use lenA t f in auto)
  then have sty: "setRangeFontName loaded (rep_start rep) (rep_start rep + int (length ?t)) f (?A @ ?B @ ?D)
      = Inr (?A @ map (\<lambda>c. (c, f)) ?t @ ?D)"
    using si by (simp add: comp_def)
  have split: "?D = take ?r ?D @ drop (?s + ?r) C"
    by (metis add.commute append_take_drop_id drop_drop)
  have "deleteCharacters (int (?s + length ?t)) (int (?s + length ?t) + int (length (take ?r ?D)))
           ((?A @ map (\<lambda>c. (c, f)) ?t) @ take ?r ?D @ drop (?s + ?r) C)
      = Inr ((?A @ map (\<lambda>c. (c, f)) ?t) @ drop (?s + ?r) C)"
    by (rule deleteCharacters_at) (use lenA in auto)
  moreover have "length (take ?r ?D) = ?r" using b by simp
  ultimately have del: "deleteCharacters (rep_start rep + int (length ?t))
           (rep_start rep + int (length ?t) + rep_len rep) (?A @ map (\<lambda>c. (c, f)) ?t @ ?D)
      = Inr (?A @ map (\<lambda>c. (c, f)) ?t @ drop (?s + ?r) C)"
    using si ri split by (metis append_assoc of_nat_add)
  show ?thesis
    by (simp add: restoreRep_def ins f sty del Let_def)
qed

lemma safeLoadFonts_mono: "loadedFonts h \<subseteq> loadedFonts (safeLoadFonts fs h)"
  by (simp add: safeLoadFonts_def)

lemma safeLoadFontsForNode_mono: "loadedFonts h \<subseteq> loadedFonts (safeLoadFontsForNode n h)"
  by (simp add: safeLoadFontsForNode_def safeLoadFonts_mono)

lemma resolved_match_facts:
  "wfMatches pos txt ms \<Longrightarrow> mv \<in> set (resolvedMatches res ms) \<Longrightarrow>
     pos \<le> mstart (fst mv) \<and> mstart (fst mv) + mlen (fst mv) \<le> pos + length txt
     \<and> mtext (fst mv) = take (mlen (fst mv)) (drop (mstart (fst mv) - pos) txt)
     \<and> 2 \<le> mlen (fst mv)"
proof (induction ms arbitrary: pos "txt")
  case Nil
  then show ?case by simp
next
  case (Cons m ms)
  let ?e = "mstart m + mlen m"
  from Cons.prems(1) have p: "pos \<le> mstart m" and b: "?e \<le> pos + length txt"
    and t: "mtext m = take (mlen m) (drop (mstart m - pos) txt)" and l: "2 \<le> mlen m"
    and w: "wfMatches ?e (drop (?e - pos) txt) ms" by auto
  show ?case
  proof (cases "mv \<in> set (resolvedMatches res ms)")
    case True
    from Cons.IH[OF w True] have i1: "?e \<le> mstart (fst mv)"
      and i2: "mstart (fst mv) + mlen (fst mv) \<le> ?e + length (drop (?e - pos) txt)"
      and i3: "mtext (fst mv) = take (mlen (fst mv)) (drop (mstart (fst mv) - ?e) (drop (?e - pos) txt))"
      and i4: "2 \<le> mlen (fst mv)" by auto
    have "mstart (fst mv) - ?e + (?e - pos) = mstart (fst mv) - pos" using i1 p by arith
    with i1 i2 i3 i4 p b show ?thesis by simp
  next
    case False
    with Cons.prems(2) have "fst mv = m"
      by (auto simp: resolvedMatches_Cons split: option.splits)
    with p b t l show ?thesis by simp
  qed
qed

lemma actionable_match_facts:
  assumes "mv \<in> set (actionableMatches cn h node)"
  shows "mstart (fst mv) < length (content node)"
    and "mstart (fst mv) + mlen (fst mv) \<le> length (content node)"
    and "mtext (fst mv) = take (mlen (fst mv)) (drop (mstart (fst mv)) (characters node))"
    and "length (mtext (fst mv)) = mlen (fst mv)"
    and "2 \<le> mlen (fst mv)"
proof -
  have "mstart (fst mv) + mlen (fst mv) \<le> length (content node)
      \<and> mtext (fst mv) = take (mlen (fst mv)) (drop (mstart (fst mv)) (characters node))
      \<and> 2 \<le> mlen (fst mv)"
    using resolved_match_facts[OF scan_wf, of mv "resolver cn h node" "characters node"] assms
    by (simp add: actionableMatches_def characters_def)
  then show "mstart (fst mv) < length (content node)"
    and "mstart (fst mv) + mlen (fst mv) \<le> length (content node)"
    and "mtext (fst mv) = take (mlen (fst mv)) (drop (mstart (fst mv)) (characters node))"
    and "length (mtext (fst mv)) = mlen (fst mv)"
    and "2 \<le> mlen (fst mv)"
    by (auto simp: characters_def)
qed

lemma restore_unfold:
  assumes "readNodeBackup node = Some b" and "replacements b = Some rs"
  shows "restorePlaceholdersInNode h node =
     (let h2 = safeLoadFonts (List.map_filter rep_originalFont (sortDescending rs))
                 (safeLoadFontsForNode node h);
          lp = runLoop (restoreRep (baseFont node) (loadedFonts h2)) (sortDescending rs) (content node)
      in case snd lp of
           Some e \<Rightarrow> (Inl e, node\<lparr>content := fst lp\<rparr>, h2)
         | None \<Rightarrow> (Inr \<lparr>restored = True\<rparr>, clearNodeBackup (node\<lparr>content := fst lp\<rparr>), h2))"
  using assms by (simp add: restorePlaceholdersInNode_def Let_def split_beta)

lemma restore_loop:
  assumes ok: "\<forall>rep \<in> set recs. 0 \<le> rep_start rep \<and> 0 \<le> rep_len rep \<and> rep_originalText rep \<noteq> []
                 \<and> (\<exists>f. rep_originalFont rep = Some f \<and> f \<in> loaded)"
    and wf: "wfSpans 0 (length T) (map recSplice recs)"
  shows "runLoop (restoreRep base loaded) (rev recs) T = (rebuild 0 T (map recSplice recs), None)"
proof -
  let ?sp = "\<lambda>rep. (nat (rep_start rep), nat (rep_len rep))"
  let ?ins = "\<lambda>rep (pre :: styled). map (\<lambda>c. (c, the (rep_originalFont rep))) (rep_originalText rep)"
  let ?xs = "map (\<lambda>x. (fst (?sp x), snd (?sp x), ?ins x (take (fst (?sp x) + snd (?sp x)) T))) recs"
  have eq: "?xs = map recSplice recs" by (simp add: recSplice_def)
  have gen: "\<exists>R. runLoop (restoreRep base loaded) (rev recs) T = (R, None)
       \<and> (\<lambda>C. C) R = [] @ rebuild (length ([] :: styled)) T ?xs"
  proof (rule runLoop_rev_rebuild[where \<alpha> = "\<lambda>C. C" and sp = ?sp and ins = ?ins and P = "[]"])
    show "T = [] @ T" by simp
    show "wfSpans (length ([] :: styled)) (length ([] :: styled) + length T) ?xs"
      using wf unfolding eq by simp
  next
    fix x and C :: styled and s r
    assume x: "x \<in> set recs" and sp: "(nat (rep_start x), nat (rep_len x)) = (s, r)"
      and b: "s + r \<le> length C"
    from ok x obtain f where f: "rep_originalFont x = Some f" "f \<in> loaded"
      and p: "0 \<le> rep_start x" "0 \<le> rep_len x" "rep_originalText x \<noteq> []" by blast
    from restoreRep_step[OF p(1) p(2) _ f p(3), of C base] sp b f
    show "\<exists>C'. restoreRep base loaded x C = (C', None)
         \<and> C' = take s C @ ?ins x (take (s + r) C) @ drop (s + r) C"
      by auto
  qed
  from gen obtain R where R: "runLoop (restoreRep base loaded) (rev recs) T = (R, None)"
    and RR: "R = rebuild 0 T ?xs" by auto
  show ?thesis unfolding R RR eq ..
qed

lemma uniform_span_eq:
  "\<forall>cf \<in> set xs. snd cf = f \<Longrightarrow> xs = map (\<lambda>c. (c, f)) (map fst xs)"
  by (induction xs) auto

lemma recSplice_inverse:
  assumes "\<forall>mv \<in> set mvs. mstart (fst mv) < length (content node)
             \<and> uniformSpan node (mstart (fst mv)) (mlen (fst mv))
             \<and> mtext (fst mv) = take (mlen (fst mv)) (drop (mstart (fst mv)) (characters node))"
  shows "map recSplice (recsFrom node d mvs)
     = inverseSplices d (content node)
         (map (valueSplice base loaded iconFont il (content node)) (map (opOf node) mvs))"
  using assms
proof (induction mvs arbitrary: d)
  case Nil
  then show ?case by simp
next
  case (Cons mv mvs)
  let ?s = "mstart (fst mv)" and ?r = "mlen (fst mv)"
  from Cons.prems have s: "?s < length (content node)" and u: "uniformSpan node ?s ?r"
    and t: "mtext (fst mv) = take ?r (drop ?s (characters node))" by auto
  have "take ?r (drop ?s (content node))
      = map (\<lambda>c. (c, fontAt node ?s)) (map fst (take ?r (drop ?s (content node))))"
    by (rule uniform_span_eq) (use u in \<open>simp add: uniformSpan_def\<close>)
  also have "map fst (take ?r (drop ?s (content node))) = mtext (fst mv)"
    by (simp add: t characters_def take_map drop_map)
  finally have span: "take ?r (drop ?s (content node)) = map (\<lambda>c. (c, fontAt node ?s)) (mtext (fst mv))" .
  from Cons.IH Cons.prems
  have ih: "map recSplice (recsFrom node (d + (int (length (snd mv)) - int ?r)) mvs)
     = inverseSplices (d + (int (length (snd mv)) - int ?r)) (content node)
         (map (valueSplice base loaded iconFont il (content node)) (map (opOf node) mvs))" by simp
  have h1: "recSplice \<lparr>rep_start = a, rep_len = int n, rep_originalText = tx, rep_originalFont = Some g\<rparr>
      = (nat a, n, map (\<lambda>c. (c, g)) tx)" for a n tx g
    by (simp add: recSplice_def)
  have h2: "valueSplice base loaded iconFont il T (opOf node mv)
      = (?s, ?r, map (\<lambda>c. (c, spanFont base loaded iconFont il (opOf node mv) T)) (snd mv))" for T
    by (simp add: valueSplice_def opOf_def)
  show ?case
    by (simp add: ih h1 h2 captureFont_at[OF s] span)
qed

lemma recsFrom_set:
  "rep \<in> set (recsFrom node d mvs) \<Longrightarrow>
   \<exists>mv \<in> set mvs. rep_len rep = int (length (snd mv)) \<and> rep_originalText rep = mtext (fst mv)
      \<and> rep_originalFont rep = captureFont node (mstart (fst mv))"
  by (induction node d mvs rule: recsFrom.induct) auto

lemma valueSplices_wf:
  "wfSpans 0 (length (content node))
     (map (valueSplice base loaded iconFont il T) (map (opOf node) (actionableMatches cn h node)))"
proof -
  let ?Y = "\<lambda>mv. map (\<lambda>c. (c, spanFont base loaded iconFont il (opOf node mv) T)) (snd mv)"
  have "wfSpans 0 (0 + length (characters node))
      (map (\<lambda>mv. (mstart (fst mv), mlen (fst mv), ?Y mv)) (actionableMatches cn h node))"
    unfolding actionableMatches_def by (rule wfMatches_resolved[OF scan_wf])
  moreover have "map (\<lambda>mv. (mstart (fst mv), mlen (fst mv), ?Y mv)) (actionableMatches cn h node)
      = map (valueSplice base loaded iconFont il T) (map (opOf node) (actionableMatches cn h node))"
    by (simp add: valueSplice_def opOf_def)
  ultimately show ?thesis by (simp add: characters_def)
qed

lemma round_trip_content:
  assumes A: "actionableMatches cn h node \<noteq> []"
    and nt: "noEmptyValueBeforeAdjacent (actionableMatches cn h node)"
    and un: "\<forall>mv \<in> set (actionableMatches cn h node).
               uniformSpan node (mstart (fst mv)) (mlen (fst mv))
               \<and> fontAt node (mstart (fst mv)) \<in> loadedFonts (safeLoadFontsForNode node h)"
  shows "fst (restorePlaceholdersInNode (hostAfter (replacePlaceholdersInNode ps cn h node))
             (nodeAfter (replacePlaceholdersInNode ps cn h node))) = Inr \<lparr>restored = True\<rparr>"
    and "content (nodeAfter (restorePlaceholdersInNode (hostAfter (replacePlaceholdersInNode ps cn h node))
             (nodeAfter (replacePlaceholdersInNode ps cn h node)))) = content node"
    and "readNodeBackup (nodeAfter (restorePlaceholdersInNode (hostAfter (replacePlaceholdersInNode ps cn h node))
             (nodeAfter (replacePlaceholdersInNode ps cn h node)))) = None"
proof -
  let ?A = "actionableMatches cn h node"
  let ?R = "replacePlaceholdersInNode ps cn h node"
  let ?n1 = "nodeAfter ?R" and ?h1 = "hostAfter ?R"
  let ?recs = "recsFrom node 0 ?A"
  let ?T = "content node"
  let ?il = "iconLoadedIn ps cn h node" and ?ld = "loadedInPass ps cn h node"
  let ?xs = "map (valueSplice (baseFont node) ?ld (iconFontOf ps) ?il ?T) (map (opOf node) ?A)"
  let ?F = "substitutedContent ps cn h node"
  have F: "?F = rebuild 0 ?T ?xs" by (simp add: substitutedContent_def)
  have cn1: "content ?n1 = ?F" and bf: "baseFont ?n1 = baseFont node"
    and ld1: "loadedFonts ?h1 = ?ld"
    by (simp_all add: replace_changed[OF A] nodeAfter_def hostAfter_def saveNodeBackup_def)
  note bk = replace_backup[OF A, of ps]
  have wfm: "wfMatches 0 (characters node) (scanPlaceholders (characters node))" by (rule scan_wf)
  have facts: "mstart (fst mv) + mlen (fst mv) \<le> length ?T
      \<and> mtext (fst mv) = take (mlen (fst mv)) (drop (mstart (fst mv)) (characters node))
      \<and> 2 \<le> mlen (fst mv)" if "mv \<in> set ?A" for mv
    using resolved_match_facts[OF wfm, of mv "resolver cn h node"] that
    by (simp add: actionableMatches_def characters_def)
  have inv: "map recSplice ?recs = inverseSplices 0 ?T ?xs"
  proof (rule recSplice_inverse)
    show "\<forall>mv \<in> set ?A. mstart (fst mv) < length ?T
             \<and> uniformSpan node (mstart (fst mv)) (mlen (fst mv))
             \<and> mtext (fst mv) = take (mlen (fst mv)) (drop (mstart (fst mv)) (characters node))"
      using facts un by fastforce
  qed
  have wfx: "wfSpans 0 (0 + length ?T) ?xs" using valueSplices_wf[of node] by simp
  from inverse_rebuild[OF wfx, of "content node" 0 0]
  have wfr: "wfSpans 0 (length ?F) (map recSplice ?recs)"
    and inv_id: "rebuild 0 ?F (map recSplice ?recs) = ?T"
    by (simp_all add: inv F)
  have starts: "map rep_start ?recs
      = shifted 0 (map (\<lambda>mv. (mstart (fst mv), mlen (fst mv), snd mv)) ?A)"
    by (rule recsFrom_starts)
  have wft: "wfSpans 0 (0 + length (characters node))
      (map (\<lambda>mv. (mstart (fst mv), mlen (fst mv), snd mv)) ?A)"
    unfolding actionableMatches_def by (rule wfMatches_resolved[OF scan_wf])
  have "sorted_wrt (<) (map rep_start ?recs)"
    unfolding starts by (rule shifted_strict[OF wft]) (simp add: noTie_matches nt)
  then have srt: "sortDescending ?recs = rev ?recs" by (rule sortDescending_rev)
  let ?h2 = "safeLoadFonts (List.map_filter rep_originalFont (rev ?recs)) (safeLoadFontsForNode ?n1 ?h1)"
  have mono: "loadedFonts (safeLoadFontsForNode node h) \<subseteq> loadedFonts ?h2"
  proof -
    have "loadedFonts (safeLoadFontsForNode node h) \<subseteq> ?ld" by (simp add: loadedInPass_def)
    also have "?ld \<subseteq> loadedFonts (safeLoadFontsForNode ?n1 ?h1)"
      using safeLoadFontsForNode_mono[of "hostAfter (replacePlaceholdersInNode ps cn h node)" "nodeAfter (replacePlaceholdersInNode ps cn h node)"] by (simp add: ld1)
    also have "\<dots> \<subseteq> loadedFonts ?h2" by (rule safeLoadFonts_mono)
    finally show ?thesis .
  qed
  have ok: "\<forall>rep \<in> set ?recs. 0 \<le> rep_start rep \<and> 0 \<le> rep_len rep \<and> rep_originalText rep \<noteq> []
                 \<and> (\<exists>f. rep_originalFont rep = Some f \<and> f \<in> loadedFonts ?h2)"
  proof
    fix rep assume rep: "rep \<in> set ?recs"
    then have "rep_start rep \<in> set (shifted 0 (map (\<lambda>mv. (mstart (fst mv), mlen (fst mv), snd mv)) ?A))"
      using starts by (metis image_eqI set_map)
    from shifted_lower[OF wft this] have s0: "0 \<le> rep_start rep" by simp
    from recsFrom_set[OF rep] obtain mv where mv: "mv \<in> set ?A"
      and l: "rep_len rep = int (length (snd mv))" and t: "rep_originalText rep = mtext (fst mv)"
      and f: "rep_originalFont rep = captureFont node (mstart (fst mv))" by blast
    from facts[OF mv] have lt: "mstart (fst mv) < length ?T" and tl: "length (mtext (fst mv)) = mlen (fst mv)"
      and two: "2 \<le> mlen (fst mv)" by (auto simp: characters_def)
    from tl two have "mtext (fst mv) \<noteq> []" by auto
    moreover have "rep_originalFont rep = Some (fontAt node (mstart (fst mv)))"
      using f captureFont_at[OF lt] by simp
    moreover have "fontAt node (mstart (fst mv)) \<in> loadedFonts ?h2" using un mv mono by blast
    ultimately show "0 \<le> rep_start rep \<and> 0 \<le> rep_len rep \<and> rep_originalText rep \<noteq> []
                 \<and> (\<exists>f. rep_originalFont rep = Some f \<and> f \<in> loadedFonts ?h2)"
      using s0 l t by simp
  qed
  have loop: "runLoop (restoreRep (baseFont ?n1) (loadedFonts ?h2)) (rev ?recs) (content ?n1)
      = (?T, None)"
    using restore_loop[OF ok, of "substitutedContent ps cn h node" "baseFont (nodeAfter (replacePlaceholdersInNode ps cn h node))"] wfr inv_id by (simp add: cn1)
  have rb: "readNodeBackup ?n1 = Some \<lparr>original = Some (characters node),
             snapshot = p_snapshot (returned (planMatches (passHost cn h) (passCollection cn h) node
                          (scanPlaceholders (characters node)) emptyPlan)),
             collection = collectionArg (coll_name (passCollection cn h)),
             replacements = Some ?recs, ts = now h\<rparr>" by (rule bk)
  have "restorePlaceholdersInNode ?h1 ?n1 =
     (let h2 = safeLoadFonts (List.map_filter rep_originalFont (sortDescending ?recs))
                 (safeLoadFontsForNode ?n1 ?h1);
          lp = runLoop (restoreRep (baseFont ?n1) (loadedFonts h2)) (sortDescending ?recs) (content ?n1)
      in case snd lp of
           Some e \<Rightarrow> (Inl e, ?n1\<lparr>content := fst lp\<rparr>, h2)
         | None \<Rightarrow> (Inr \<lparr>restored = True\<rparr>, clearNodeBackup (?n1\<lparr>content := fst lp\<rparr>), h2))"
    by (rule restore_unfold[OF rb]) simp
  then have res: "restorePlaceholdersInNode ?h1 ?n1
      = (Inr \<lparr>restored = True\<rparr>, clearNodeBackup (?n1\<lparr>content := ?T\<rparr>), ?h2)"
    unfolding srt Let_def loop by simp
  show "fst (restorePlaceholdersInNode ?h1 ?n1) = Inr \<lparr>restored = True\<rparr>"
    and "content (nodeAfter (restorePlaceholdersInNode ?h1 ?n1)) = content node"
    and "readNodeBackup (nodeAfter (restorePlaceholdersInNode ?h1 ?n1)) = None"
    unfolding res by (simp_all add: nodeAfter_def clearNodeBackup_def readNodeBackup_def)
qed

lemma resolveVariableValue_not_falsy: "resolveVariableValue v c \<noteq> Returns JFalsy"
  by (auto simp: resolveVariableValue_def resolveVariableValue_try_def truthy_def
        split: option.splits outcome.splits list.splits jsval.splits prod.splits)

lemma setRangeFontName_text:
  "setRangeFontName loaded a b f T = Inr T' \<Longrightarrow> map fst T' = map fst T \<and> length T' = length T"
proof -
  assume a: "setRangeFontName loaded a b f T = Inr T'"
  then have r: "0 \<le> a" "a < b" "b \<le> int (length T)"
    and T': "T' = take (nat a) T @ map (\<lambda>cf. (fst cf, f)) (take (nat b - nat a) (drop (nat a) T))
        @ drop (nat b) T"
    by (auto simp: setRangeFontName_def split: if_splits)
  have "nat b = nat a + (nat b - nat a)" using r by simp
  then have "drop (nat b) T = drop (nat b - nat a) (drop (nat a) T)"
    by (metis add.commute drop_drop)
  then have "map fst T' = map fst (take (nat a) T @ (take (nat b - nat a) (drop (nat a) T)
        @ drop (nat b - nat a) (drop (nat a) T)))"
    unfolding T' by (simp add: comp_def)
  then have "map fst T' = map fst T" by (simp only: append_take_drop_id)
  then show ?thesis by (metis length_map)
qed

lemma restoreRep_text:
  assumes s0: "0 \<le> rep_start rep" and r0: "0 \<le> rep_len rep"
    and b: "nat (rep_start rep) + nat (rep_len rep) \<le> length C"
  shows "\<exists>C'. restoreRep base loaded rep C = (C', None)
     \<and> map fst C' = take (nat (rep_start rep)) (map fst C) @ rep_originalText rep
        @ drop (nat (rep_start rep) + nat (rep_len rep)) (map fst C)"
proof -
  let ?s = "nat (rep_start rep)" and ?r = "nat (rep_len rep)" and ?t = "rep_originalText rep"
  have si: "rep_start rep = int ?s" and ri: "rep_len rep = int ?r" using s0 r0 by simp_all
  let ?T1 = "take ?s C @ map (\<lambda>c. (c, inheritFont base C ?s)) ?t @ drop ?s C"
  have ins: "insertCharacters base (rep_start rep) ?t C = Inr ?T1"
    using insertCharacters_at[of ?s C base ?t] b si by simp
  define T2 where "T2 = (case rep_originalFont rep of
                       None \<Rightarrow> ?T1
                     | Some f \<Rightarrow>
                         (case setRangeFontName loaded (rep_start rep)
                                 (rep_start rep + int (length ?t)) f ?T1 of
                            Inl e \<Rightarrow> ?T1
                          | Inr T' \<Rightarrow> T'))"
  have T2: "map fst T2 = map fst ?T1 \<and> length T2 = length ?T1"
    unfolding T2_def using setRangeFontName_text
    by (auto split: option.splits sum.splits)
  have m1: "map fst ?T1 = take ?s (map fst C) @ ?t @ drop ?s (map fst C)"
    by (simp add: take_map drop_map comp_def)
  have len: "length T2 = length C + length ?t" using T2 b by simp
  have del: "deleteCharacters (rep_start rep + int (length ?t))
      (rep_start rep + int (length ?t) + rep_len rep) T2
      = Inr (take (?s + length ?t) T2 @ drop (?s + length ?t + ?r) T2)"
    using b len s0 r0 by (simp add: deleteCharacters_def nat_add_distrib)
  have "map fst (take (?s + length ?t) T2 @ drop (?s + length ?t + ?r) T2)
      = take (?s + length ?t) (map fst T2) @ drop (?s + length ?t + ?r) (map fst T2)"
    by (simp add: take_map drop_map)
  also have "\<dots> = take ?s (map fst C) @ ?t @ drop (?s + ?r) (map fst C)"
    using T2 m1 b by (simp add: add.commute)
  finally have res: "map fst (take (?s + length ?t) T2 @ drop (?s + length ?t + ?r) T2)
      = take ?s (map fst C) @ ?t @ drop (?s + ?r) (map fst C)" .
  have "restoreRep base loaded rep C = (take (?s + length ?t) T2 @ drop (?s + length ?t + ?r) T2, None)"
    by (simp add: restoreRep_def ins Let_def T2_def[symmetric] del)
  with res show ?thesis by simp
qed

lemma restore_loop_text:
  assumes ok: "\<forall>rep \<in> set recs. 0 \<le> rep_start rep \<and> 0 \<le> rep_len rep"
    and wf: "wfSpans 0 (length T) (map recTextSplice recs)"
  shows "\<exists>R. runLoop (restoreRep base loaded) (rev recs) T = (R, None)
           \<and> map fst R = rebuild 0 (map fst T) (map recTextSplice recs)"
proof -
  let ?sp = "\<lambda>rep. (nat (rep_start rep), nat (rep_len rep))"
  let ?ins = "\<lambda>rep (pre :: string). rep_originalText rep"
  let ?xs = "map (\<lambda>x. (fst (?sp x), snd (?sp x), ?ins x (take (fst (?sp x) + snd (?sp x)) (map fst T)))) recs"
  have eq: "?xs = map recTextSplice recs" by (simp add: recTextSplice_def)
  have gen: "\<exists>R. runLoop (restoreRep base loaded) (rev recs) T = (R, None)
       \<and> map fst R = [] @ rebuild (length ([] :: string)) (map fst T) ?xs"
  proof (rule runLoop_rev_rebuild[where \<alpha> = "map fst" and sp = ?sp and ins = ?ins and P = "[]"])
    show "map fst T = [] @ map fst T" by simp
    show "wfSpans (length ([] :: string)) (length ([] :: string) + length (map fst T)) ?xs"
      using wf unfolding eq by simp
  next
    fix x and C :: styled and s r
    assume x: "x \<in> set recs" and sp: "(nat (rep_start x), nat (rep_len x)) = (s, r)"
      and b: "s + r \<le> length (map fst C)"
    from ok x have p: "0 \<le> rep_start x" "0 \<le> rep_len x" by auto
    from restoreRep_text[OF p, of C base loaded] sp b
    show "\<exists>C'. restoreRep base loaded x C = (C', None)
         \<and> map fst C' = take s (map fst C) @ ?ins x (take (s + r) (map fst C)) @ drop (s + r) (map fst C)"
      by auto
  qed
  then show ?thesis unfolding eq by simp
qed

lemma recTextSplice_inverse:
  assumes "\<forall>mv \<in> set mvs.
             mtext (fst mv) = take (mlen (fst mv)) (drop (mstart (fst mv)) txt)"
  shows "map recTextSplice (recsFrom node d mvs)
     = inverseSplices d txt (map (\<lambda>mv. (mstart (fst mv), mlen (fst mv), snd mv)) mvs)"
  using assms by (induction mvs arbitrary: d) (auto simp: recTextSplice_def)

lemma round_trip_text:
  assumes A: "actionableMatches cn h node \<noteq> []"
    and nt: "noEmptyValueBeforeAdjacent (actionableMatches cn h node)"
  shows "fst (roundTrip ps cn h node) = Inr \<lparr>restored = True\<rparr>"
    and "characters (nodeAfter (roundTrip ps cn h node)) = characters node"
    and "readNodeBackup (nodeAfter (roundTrip ps cn h node)) = None"
proof -
  let ?A = "actionableMatches cn h node"
  let ?R = "replacePlaceholdersInNode ps cn h node"
  let ?n1 = "nodeAfter ?R" and ?h1 = "hostAfter ?R"
  let ?recs = "recsFrom node 0 ?A"
  let ?txt = "characters node"
  let ?xs = "map (\<lambda>mv. (mstart (fst mv), mlen (fst mv), snd mv)) ?A"
  let ?F = "substitutedContent ps cn h node"
  have F: "map fst ?F = rebuild 0 ?txt ?xs" by (rule substitutedContent_text)
  have cn1: "content ?n1 = ?F"
    by (simp add: replace_changed[OF A] nodeAfter_def)
  have inv: "map recTextSplice ?recs = inverseSplices 0 ?txt ?xs"
    by (rule recTextSplice_inverse) (use actionable_match_facts(3) in blast)
  have wft: "wfSpans 0 (0 + length ?txt) ?xs"
    unfolding actionableMatches_def by (rule wfMatches_resolved[OF scan_wf])
  from inverse_rebuild[OF wft, of "characters node" 0 0]
  have wfr: "wfSpans 0 (length ?F) (map recTextSplice ?recs)"
    and inv_id: "rebuild 0 (map fst ?F) (map recTextSplice ?recs) = ?txt"
    using F by (simp_all add: inv) (metis length_map)
  have starts: "map rep_start ?recs = shifted 0 ?xs" by (rule recsFrom_starts)
  have "sorted_wrt (<) (map rep_start ?recs)"
    unfolding starts by (rule shifted_strict[OF wft]) (simp add: noTie_matches nt)
  then have srt: "sortDescending ?recs = rev ?recs" by (rule sortDescending_rev)
  let ?h2 = "safeLoadFonts (List.map_filter rep_originalFont (rev ?recs)) (safeLoadFontsForNode ?n1 ?h1)"
  have ok: "\<forall>rep \<in> set ?recs. 0 \<le> rep_start rep \<and> 0 \<le> rep_len rep"
  proof
    fix rep assume rep: "rep \<in> set ?recs"
    then have "rep_start rep \<in> set (shifted 0 ?xs)"
      using starts by (metis image_eqI set_map)
    from shifted_lower[OF wft this] have s0: "0 \<le> rep_start rep" by simp
    from recsFrom_set[OF rep] have "0 \<le> rep_len rep" by auto
    with s0 show "0 \<le> rep_start rep \<and> 0 \<le> rep_len rep" by simp
  qed
  from restore_loop_text[OF ok wfr, of "baseFont ?n1" "loadedFonts ?h2"] inv_id
  obtain R where loop: "runLoop (restoreRep (baseFont ?n1) (loadedFonts ?h2)) (rev ?recs) (content ?n1)
      = (R, None)" and R: "map fst R = ?txt"
    by (auto simp: cn1)
  note rb = replace_backup[OF A, of ps]
  have "restorePlaceholdersInNode ?h1 ?n1 =
     (let h2 = safeLoadFonts (List.map_filter rep_originalFont (sortDescending ?recs))
                 (safeLoadFontsForNode ?n1 ?h1);
          lp = runLoop (restoreRep (baseFont ?n1) (loadedFonts h2)) (sortDescending ?recs) (content ?n1)
      in case snd lp of
           Some e \<Rightarrow> (Inl e, ?n1\<lparr>content := fst lp\<rparr>, h2)
         | None \<Rightarrow> (Inr \<lparr>restored = True\<rparr>, clearNodeBackup (?n1\<lparr>content := fst lp\<rparr>), h2))"
    by (rule restore_unfold[OF rb]) simp
  then have res: "roundTrip ps cn h node
      = (Inr \<lparr>restored = True\<rparr>, clearNodeBackup (?n1\<lparr>content := R\<rparr>), ?h2)"
    unfolding srt Let_def loop roundTrip_def by simp
  show "fst (roundTrip ps cn h node) = Inr \<lparr>restored = True\<rparr>"
    and "characters (nodeAfter (roundTrip ps cn h node)) = characters node"
    and "readNodeBackup (nodeAfter (roundTrip ps cn h node)) = None"
    unfolding res using R
    by (simp_all add: nodeAfter_def clearNodeBackup_def readNodeBackup_def characters_def)
qed

subsection \<open>The span of a placeholder after the round trip\<close>



subsection \<open>Where a match ends up in the text after a pass\<close>

lemma resolvedMatches_all:
  "resolvedMatches (\<lambda>k. Some []) ms = map (\<lambda>m. (m, [])) ms"
  by (induction ms) (auto simp: resolvedMatches_Cons)

lemma substituted_rebuild:
  "substituted res pos txt ms = rebuild pos txt (map (\<lambda>m. (mstart m, mlen m, piece res m)) ms)"
  by (induction ms arbitrary: pos "txt") (auto simp: piece_def)

lemma wfMatches_all:
  "wfMatches pos txt ms \<Longrightarrow>
   wfSpans pos (pos + length txt) (map (\<lambda>m. (mstart m, mlen m, Y m)) ms)"
  using wfMatches_resolved[of pos "txt" ms "\<lambda>mv. Y (fst mv)" "\<lambda>k. Some []"]
  by (simp add: resolvedMatches_all comp_def)

lemma wfMatches_mtext:
  "wfMatches pos txt ms \<Longrightarrow> m \<in> set ms \<Longrightarrow> length (mtext m) = mlen m"
  using resolved_match_facts[of pos "txt" ms "(m, [])" "\<lambda>k. Some []"]
  by (auto simp: resolvedMatches_all)

lemma substituted_at:
  assumes wf: "wfMatches 0 txt ms" and i: "i < length ms"
  shows "0 \<le> int (mstart (ms ! i)) + shiftBefore res ms i
       \<and> take (length (piece res (ms ! i)))
           (drop (nat (int (mstart (ms ! i)) + shiftBefore res ms i)) (substituted res 0 txt ms))
         = piece res (ms ! i)"
proof -
  let ?xs = "map (\<lambda>m. (mstart m, mlen m, piece res m)) ms"
  have wfx: "wfSpans 0 (0 + length txt) ?xs" by (rule wfMatches_all[OF wf])
  have ii: "i < length ?xs" using i by simp
  have "(\<Sum>x\<leftarrow>take i ?xs. int (length (snd (snd x))) - int (fst (snd x)))
      = (\<Sum>m\<leftarrow>take i ms. int (length (piece res m)) - int (mlen m))"
    by (simp add: take_map comp_def)
  also have "\<dots> = shiftBefore res ms i"
    unfolding shiftBefore_def
  proof (rule arg_cong[where f = sum_list], rule map_cong[OF refl])
    fix m assume "m \<in> set (take i ms)"
    then have "m \<in> set ms" by (rule in_set_takeD)
    from wfMatches_mtext[OF wf this]
    show "int (length (piece res m)) - int (mlen m)
        = (case res (mkey m) of None \<Rightarrow> 0 | Some v \<Rightarrow> int (length v) - int (mlen m))"
      by (simp add: piece_def split: option.splits)
  qed
  finally have sh: "shifted 0 ?xs ! i = int (mstart (ms ! i)) + shiftBefore res ms i"
    using shifted_nth_sum[OF ii, of 0] i by simp
  from rebuild_at_shifted[OF wfx _ ii, of "[]" 0] i
  show ?thesis unfolding sh by (simp add: substituted_rebuild)
qed

subsection \<open>The whole-text evolution and the backup\<close>

text \<open>
  The whole-text evolution restores from the \<^verbatim>\<open>original\<close> of the backup and keeps the backup;
  a pass of it that finds no placeholder returns at once and touches nothing.
\<close>

lemma whole_text_restore_keeps_backup:
  "readNodeBackup node = Some b \<Longrightarrow> original b = Some (c # cs) \<Longrightarrow>
   fst (restorePlaceholdersInNode_wt h node) = \<lparr>restored = True\<rparr>
   \<and> readNodeBackup (nodeAfter (restorePlaceholdersInNode_wt h node)) = Some b"
  by (simp add: restorePlaceholdersInNode_wt_def readNodeBackup_def nodeAfter_def setCharacters_def)

lemma whole_text_pass_without_match_keeps_backup:
  "scanPlaceholders_wt (characters node) = [] \<Longrightarrow>
   nodeAfter (replacePlaceholdersInNode_wt cn h node) = node"
  by (simp add: replacePlaceholdersInNode_wt_def nodeAfter_def)

section \<open>A pass with nothing to do\<close>

lemma buildOut_wt_unresolved:
  "\<forall>m \<in> set ms. valueIn h coll node (mkey m) = None \<Longrightarrow>
   b_snapshot (returned (buildOut_wt h coll node txt ms b)) = b_snapshot b"
  by (induction ms arbitrary: b) (simp_all add: Let_def resolvedValue_returns)

lemma replace_wt_unresolved:
  assumes ne: "scanPlaceholders_wt (characters node) \<noteq> []"
    and un: "\<forall>m \<in> set (scanPlaceholders_wt (characters node)). resolver cn h node (mkey m) = None"
  shows "fst (replacePlaceholdersInNode_wt cn h node)
           = Inr \<lparr>changed = True, res_snapshot = Some Map.empty\<rparr>"
    and "readNodeBackup (nodeAfter (replacePlaceholdersInNode_wt cn h node))
           = Some \<lparr>original = Some (characters node), snapshot = Map.empty,
                   collection = collectionArg (coll_name (passCollection cn h)),
                   replacements = None, ts = now h\<rparr>"
    and "characters (nodeAfter (replacePlaceholdersInNode_wt cn h node)) = characters node"
proof -
  let ?ms = "scanPlaceholders_wt (characters node)"
  let ?b0 = "\<lparr>out = [], lastIndex = 0, b_snapshot = Map.empty\<rparr>"
  have un': "\<forall>m \<in> set ?ms. valueIn (passHost cn h) (passCollection cn h) node (mkey m) = None"
    using un by (simp add: resolver_def)
  have sn: "b_snapshot (returned (buildOut_wt (passHost cn h) (passCollection cn h) node
      (characters node) ?ms ?b0)) = Map.empty"
    using buildOut_wt_unresolved[OF un', of "characters node" ?b0] by simp
  have nw: "now (safeLoadFontsForNode node (passHost cn h)) = now h"
    by (simp add: safeLoad_fonts passHost_fonts)
  show "fst (replacePlaceholdersInNode_wt cn h node)
           = Inr \<lparr>changed = True, res_snapshot = Some Map.empty\<rparr>"
    using ne sn by (simp add: replace_wt_unfold Let_def)
  show "readNodeBackup (nodeAfter (replacePlaceholdersInNode_wt cn h node))
           = Some \<lparr>original = Some (characters node), snapshot = Map.empty,
                   collection = collectionArg (coll_name (passCollection cn h)),
                   replacements = None, ts = now h\<rparr>"
    using ne sn nw
    by (simp add: replace_wt_unfold Let_def nodeAfter_def readNodeBackup_def setCharacters_def
          saveNodeBackup_wt_def collectionArg_def)
  have "resolvedMatches (resolver cn h node) ?ms = []"
    using un by (simp add: resolvedMatches_empty_iff)
  from substituted_unresolved[OF scan_wt_wf this]
  show "characters (nodeAfter (replacePlaceholdersInNode_wt cn h node)) = characters node"
    by (simp add: replace_wt_characters)
qed

text \<open>
  Claim C3, as stated, fails for the whole-text evolution of \<^verbatim>\<open>src/code.js\<close>, which never
  clears a backup. On a text without a placeholder it returns at once and the stale backup
  stays. On a text whose only placeholder has an absent key it returns
  \<open>changed = true\<close> and the node ends with a backup, a new one.
\<close>

theorem whole_text_pass_keeps_or_writes_backup:
  "scanPlaceholders_wt (characters ((plainNode ''hi'')\<lparr>pluginData := Some staleBackup\<rparr>)) = []
   \<and> map_sum id changed (fst (replacePlaceholdersInNode_wt ''Keywords'' exHost
        ((plainNode ''hi'')\<lparr>pluginData := Some staleBackup\<rparr>))) = Inr False
   \<and> map_option original (readNodeBackup (nodeAfter (replacePlaceholdersInNode_wt ''Keywords'' exHost
        ((plainNode ''hi'')\<lparr>pluginData := Some staleBackup\<rparr>)))) = Some (Some ''@a'')
   \<and> map (\<lambda>m. (mkey m, resolver ''Keywords'' exHost (plainNode ''hi @zzz'') (mkey m)))
        (scanPlaceholders_wt (characters (plainNode ''hi @zzz''))) = [(''zzz'', None)]
   \<and> map_sum id changed (fst (replacePlaceholdersInNode_wt ''Keywords'' exHost (plainNode ''hi @zzz'')))
       = Inr True
   \<and> readNodeBackup (plainNode ''hi @zzz'') = None
   \<and> map_option original (readNodeBackup (nodeAfter (replacePlaceholdersInNode_wt ''Keywords'' exHost
        (plainNode ''hi @zzz'')))) = Some (Some ''hi @zzz'')"
  by code_simp

text \<open>
  Claim C3, amended. In the offset-tracked evolution, when the scanner finds no match in
  the element's text, or every match it finds has a key that resolves to absent, the
  substitution pass returns \<open>changed = false\<close> and leaves the node with its backup
  cleared and its content, text and fonts, as it was. The whole-text evolution has no such
  clearing. When its scanner finds no match it returns \<open>changed = false\<close> and leaves
  the node, backup included, and the host as they were. When every match it finds has a
  key that resolves to absent it returns \<open>changed = true\<close> with an empty snapshot,
  sets the text to the same characters and stores a new backup of that text.
\<close>

theorem no_actionable_match_by_evolution:
  "((scanPlaceholders (characters node) = [] \<or>
       (\<forall>m \<in> set (scanPlaceholders (characters node)).
          resolver collectionName h node (mkey m) = None)) \<longrightarrow>
      fst (replacePlaceholdersInNode ps collectionName h node)
           = Inr \<lparr>changed = False, res_snapshot = None\<rparr>
       \<and> readNodeBackup (nodeAfter (replacePlaceholdersInNode ps collectionName h node)) = None
       \<and> content (nodeAfter (replacePlaceholdersInNode ps collectionName h node)) = content node
       \<and> characters (nodeAfter (replacePlaceholdersInNode ps collectionName h node))
           = characters node)
   \<and> (scanPlaceholders_wt (characters node) = [] \<longrightarrow>
        replacePlaceholdersInNode_wt collectionName h node
          = (Inr \<lparr>changed = False, res_snapshot = None\<rparr>, node, h))
   \<and> (scanPlaceholders_wt (characters node) \<noteq> [] \<and>
        (\<forall>m \<in> set (scanPlaceholders_wt (characters node)).
           resolver collectionName h node (mkey m) = None) \<longrightarrow>
        fst (replacePlaceholdersInNode_wt collectionName h node)
          = Inr \<lparr>changed = True, res_snapshot = Some Map.empty\<rparr>
        \<and> characters (nodeAfter (replacePlaceholdersInNode_wt collectionName h node))
            = characters node
        \<and> readNodeBackup (nodeAfter (replacePlaceholdersInNode_wt collectionName h node))
            = Some \<lparr>original = Some (characters node), snapshot = Map.empty,
                    collection = collectionArg (coll_name (passCollection collectionName h)),
                    replacements = None, ts = now h\<rparr>)"
proof (intro conjI impI)
  assume "scanPlaceholders (characters node) = [] \<or>
       (\<forall>m \<in> set (scanPlaceholders (characters node)).
          resolver collectionName h node (mkey m) = None)"
  then have A: "actionableMatches collectionName h node = []"
    by (auto simp: actionableMatches_def resolvedMatches_empty_iff)
  show "fst (replacePlaceholdersInNode ps collectionName h node)
           = Inr \<lparr>changed = False, res_snapshot = None\<rparr>"
    and "readNodeBackup (nodeAfter (replacePlaceholdersInNode ps collectionName h node)) = None"
    and "content (nodeAfter (replacePlaceholdersInNode ps collectionName h node)) = content node"
    and "characters (nodeAfter (replacePlaceholdersInNode ps collectionName h node))
           = characters node"
    by (simp_all add: replace_unchanged[OF A] cleared_node)
next
  assume "scanPlaceholders_wt (characters node) = []"
  then show "replacePlaceholdersInNode_wt collectionName h node
          = (Inr \<lparr>changed = False, res_snapshot = None\<rparr>, node, h)"
    by (simp add: replacePlaceholdersInNode_wt_def)
next
  assume a: "scanPlaceholders_wt (characters node) \<noteq> [] \<and>
        (\<forall>m \<in> set (scanPlaceholders_wt (characters node)).
           resolver collectionName h node (mkey m) = None)"
  then have ne: "scanPlaceholders_wt (characters node) \<noteq> []"
    and un: "\<forall>m \<in> set (scanPlaceholders_wt (characters node)).
           resolver collectionName h node (mkey m) = None" by simp_all
  show "fst (replacePlaceholdersInNode_wt collectionName h node)
          = Inr \<lparr>changed = True, res_snapshot = Some Map.empty\<rparr>"
    by (rule replace_wt_unresolved(1)[OF ne un])
  show "characters (nodeAfter (replacePlaceholdersInNode_wt collectionName h node))
            = characters node"
    by (rule replace_wt_unresolved(3)[OF ne un])
  show "readNodeBackup (nodeAfter (replacePlaceholdersInNode_wt collectionName h node))
            = Some \<lparr>original = Some (characters node), snapshot = Map.empty,
                    collection = collectionArg (coll_name (passCollection collectionName h)),
                    replacements = None, ts = now h\<rparr>"
    by (rule replace_wt_unresolved(2)[OF ne un])
qed

theorem no_actionable_match_by_evolution_witness:
  "map (\<lambda>m. (mkey m, resolver ''Keywords'' exHost
           ((plainNode ''hi @zzz'')\<lparr>pluginData := Some staleBackup\<rparr>) (mkey m)))
     (scanPlaceholders (characters ((plainNode ''hi @zzz'')\<lparr>pluginData := Some staleBackup\<rparr>)))
     = [(''zzz'', None)]
   \<and> readNodeBackup ((plainNode ''hi @zzz'')\<lparr>pluginData := Some staleBackup\<rparr>) = Some staleBackup
   \<and> fst (replacePlaceholdersInNode exState ''Keywords'' exHost
        ((plainNode ''hi @zzz'')\<lparr>pluginData := Some staleBackup\<rparr>))
       = Inr \<lparr>changed = False, res_snapshot = None\<rparr>
   \<and> readNodeBackup (nodeAfter (replacePlaceholdersInNode exState ''Keywords'' exHost
        ((plainNode ''hi @zzz'')\<lparr>pluginData := Some staleBackup\<rparr>))) = None
   \<and> characters (nodeAfter (replacePlaceholdersInNode exState ''Keywords'' exHost
        ((plainNode ''hi @zzz'')\<lparr>pluginData := Some staleBackup\<rparr>))) = ''hi @zzz''
   \<and> map (\<lambda>m. (mkey m, resolver ''Keywords'' exHost
           ((plainNode ''hi @zzz'')\<lparr>pluginData := Some staleBackup\<rparr>) (mkey m)))
       (scanPlaceholders_wt (characters ((plainNode ''hi @zzz'')\<lparr>pluginData := Some staleBackup\<rparr>)))
       = [(''zzz'', None)]
   \<and> fst (replacePlaceholdersInNode_wt ''Keywords'' exHost
        ((plainNode ''hi @zzz'')\<lparr>pluginData := Some staleBackup\<rparr>))
       = Inr \<lparr>changed = True, res_snapshot = Some Map.empty\<rparr>
   \<and> map_option original (readNodeBackup (nodeAfter (replacePlaceholdersInNode_wt ''Keywords'' exHost
        ((plainNode ''hi @zzz'')\<lparr>pluginData := Some staleBackup\<rparr>)))) = Some (Some ''hi @zzz'')
   \<and> scanPlaceholders_wt (characters ((plainNode ''hi'')\<lparr>pluginData := Some staleBackup\<rparr>)) = []
   \<and> readNodeBackup (nodeAfter (replacePlaceholdersInNode_wt ''Keywords'' exHost
        ((plainNode ''hi'')\<lparr>pluginData := Some staleBackup\<rparr>))) = Some staleBackup"
proof -
  let ?n = "(plainNode ''hi @zzz'')\<lparr>pluginData := Some staleBackup\<rparr>"
  let ?e = "(plainNode ''hi'')\<lparr>pluginData := Some staleBackup\<rparr>"
  have h: "\<forall>m \<in> set (scanPlaceholders (characters ?n)).
      resolver ''Keywords'' exHost ?n (mkey m) = None"
    by code_simp
  have kw: "map (\<lambda>m. (mkey m, resolver ''Keywords'' exHost ?n (mkey m)))
      (scanPlaceholders_wt (characters ?n)) = [(''zzz'', None)]"
    by code_simp
  then have ne: "scanPlaceholders_wt (characters ?n) \<noteq> []"
    by auto
  from kw have hw: "\<forall>m \<in> set (scanPlaceholders_wt (characters ?n)).
      resolver ''Keywords'' exHost ?n (mkey m) = None"
    by (auto simp: map_eq_Cons_conv)
  have e0: "scanPlaceholders_wt (characters ?e) = []"
    by code_simp
  have c: "characters ?n = ''hi @zzz''"
    by code_simp
  have b: "readNodeBackup ?n = Some staleBackup" "readNodeBackup ?e = Some staleBackup"
    by (simp_all add: readNodeBackup_def)
  have r: "map (\<lambda>m. (mkey m, resolver ''Keywords'' exHost ?n (mkey m)))
      (scanPlaceholders (characters ?n)) = [(''zzz'', None)]"
    by code_simp
  note t = no_actionable_match_by_evolution [of ?n "''Keywords''" exHost exState]
  note t0 = no_actionable_match_by_evolution [of ?e "''Keywords''" exHost exState]
  from t h have p1: "fst (replacePlaceholdersInNode exState ''Keywords'' exHost ?n)
       = Inr \<lparr>changed = False, res_snapshot = None\<rparr>
     \<and> readNodeBackup (nodeAfter (replacePlaceholdersInNode exState ''Keywords'' exHost ?n)) = None
     \<and> characters (nodeAfter (replacePlaceholdersInNode exState ''Keywords'' exHost ?n)) = characters ?n"
    by blast
  from t ne hw have p2: "fst (replacePlaceholdersInNode_wt ''Keywords'' exHost ?n)
          = Inr \<lparr>changed = True, res_snapshot = Some Map.empty\<rparr>
     \<and> readNodeBackup (nodeAfter (replacePlaceholdersInNode_wt ''Keywords'' exHost ?n))
            = Some \<lparr>original = Some (characters ?n), snapshot = Map.empty,
                    collection = collectionArg (coll_name (passCollection ''Keywords'' exHost)),
                    replacements = None, ts = now exHost\<rparr>"
    by blast
  from t0 e0 have p3: "replacePlaceholdersInNode_wt ''Keywords'' exHost ?e
          = (Inr \<lparr>changed = False, res_snapshot = None\<rparr>, ?e, exHost)"
    by blast
  from p1 p2 p3 r b c kw e0 show ?thesis
    by (simp add: nodeAfter_def)
qed
section \<open>The offsets of the restore records\<close>

text \<open>
  Claim C2. After a substitution pass, the \<open>k\<close>-th record of the backup belongs to the
  \<open>k\<close>-th actionable match: its \<^verbatim>\<open>start\<close> is the start of that match in the text before
  the pass plus the sum, over the actionable matches before it in scan order, of the length
  of the value minus the length of the placeholder; and at that offset the text after the
  pass holds the resolved value, whose length is the record's \<^verbatim>\<open>len\<close>.
\<close>

theorem record_start_is_offset_of_value:
  assumes k: "k < length (actionableMatches cn h node)"
  shows "(\<exists>b. readNodeBackup (nodeAfter (replacePlaceholdersInNode ps cn h node)) = Some b
            \<and> replacements b = Some (persistedRecords (nodeAfter (replacePlaceholdersInNode ps cn h node))))
    \<and> length (persistedRecords (nodeAfter (replacePlaceholdersInNode ps cn h node)))
        = length (actionableMatches cn h node)
    \<and> rep_start (persistedRecords (nodeAfter (replacePlaceholdersInNode ps cn h node)) ! k)
        = int (mstart (fst (actionableMatches cn h node ! k)))
          + (\<Sum>mv\<leftarrow>take k (actionableMatches cn h node). int (length (snd mv)) - int (mlen (fst mv)))
    \<and> 0 \<le> rep_start (persistedRecords (nodeAfter (replacePlaceholdersInNode ps cn h node)) ! k)
    \<and> rep_len (persistedRecords (nodeAfter (replacePlaceholdersInNode ps cn h node)) ! k)
        = int (length (snd (actionableMatches cn h node ! k)))
    \<and> take (length (snd (actionableMatches cn h node ! k)))
        (drop (nat (rep_start (persistedRecords (nodeAfter (replacePlaceholdersInNode ps cn h node)) ! k)))
           (characters (nodeAfter (replacePlaceholdersInNode ps cn h node))))
        = snd (actionableMatches cn h node ! k)"
proof -
  let ?A = "actionableMatches cn h node"
  let ?xs = "map (\<lambda>mv. (mstart (fst mv), mlen (fst mv), snd mv)) ?A"
  let ?n = "nodeAfter (replacePlaceholdersInNode ps cn h node)"
  from k have A: "?A \<noteq> []" by auto
  note recs = replace_records[OF A, of ps]
  have kk: "k < length ?xs" using k by simp
  have st: "rep_start (recsFrom node 0 ?A ! k) = shifted 0 ?xs ! k"
    using recsFrom_starts[of node 0 ?A] k
    by (metis length_map nth_map recsFrom_fields(1))
  have ln: "rep_len (recsFrom node 0 ?A ! k) = int (length (snd (?A ! k)))"
    using recsFrom_fields(2)[of node 0 ?A] k
    by (metis length_map nth_map recsFrom_fields(1))
  have wf: "wfSpans 0 (0 + length (characters node)) ?xs"
    unfolding actionableMatches_def by (rule wfMatches_resolved[OF scan_wf])
  have "characters ?n = map fst (substitutedContent ps cn h node)"
    by (simp add: replace_changed[OF A] nodeAfter_def characters_def)
  then have chars: "characters ?n = rebuild 0 (characters node) ?xs"
    by (simp only: substitutedContent_text)
  from rebuild_at_shifted[OF wf _ kk, of "[]" 0]
  have pos: "0 \<le> shifted 0 ?xs ! k"
    and val: "take (length (snd (?A ! k))) (drop (nat (shifted 0 ?xs ! k)) (rebuild 0 (characters node) ?xs))
        = snd (?A ! k)"
    using k by simp_all
  have sum: "shifted 0 ?xs ! k = int (mstart (fst (?A ! k)))
      + (\<Sum>mv\<leftarrow>take k ?A. int (length (snd mv)) - int (mlen (fst mv)))"
    using shifted_nth_sum[OF kk, of 0] k by (simp add: take_map comp_def)
  show ?thesis
    using replace_backup[OF A, of ps] pos val sum
    by (simp add: recs st ln chars recsFrom_fields)
qed

theorem record_start_is_offset_of_value_witness:
  "1 < length (actionableMatches ''Keywords'' exHost (plainNode ''@a @bb''))
   \<and> map (\<lambda>mv. (mstart (fst mv), mlen (fst mv), snd mv))
        (actionableMatches ''Keywords'' exHost (plainNode ''@a @bb''))
       = [(0, 2, ''XXXX''), (3, 3, ''Y'')]
   \<and> rep_start (persistedRecords (nodeAfter (replacePlaceholdersInNode exState ''Keywords'' exHost
        (plainNode ''@a @bb''))) ! 1) = 3 + (4 - 2)
   \<and> characters (nodeAfter (replacePlaceholdersInNode exState ''Keywords'' exHost
        (plainNode ''@a @bb''))) = ''XXXX Y''
   \<and> take 1 (drop 5 (characters (nodeAfter (replacePlaceholdersInNode exState ''Keywords'' exHost
        (plainNode ''@a @bb''))))) = ''Y''"
proof -
  have k: "1 < length (actionableMatches ''Keywords'' exHost (plainNode ''@a @bb''))"
    by code_simp
  have a: "map (\<lambda>mv. (mstart (fst mv), mlen (fst mv), snd mv))
        (actionableMatches ''Keywords'' exHost (plainNode ''@a @bb''))
       = [(0, 2, ''XXXX''), (3, 3, ''Y'')]"
    by code_simp
  have c: "characters (nodeAfter (replacePlaceholdersInNode exState ''Keywords'' exHost
        (plainNode ''@a @bb''))) = ''XXXX Y''"
    by code_simp
  have s: "rep_start (persistedRecords (nodeAfter (replacePlaceholdersInNode exState ''Keywords''
        exHost (plainNode ''@a @bb''))) ! 1) = 5"
    by code_simp
  from record_start_is_offset_of_value [OF k, of exState] k a c s show ?thesis
    by simp
qed

section \<open>Absent keys and empty values\<close>

text \<open>
  Claim C4 says that a key which resolves to the empty string is in the snapshot of the
  backup. The code breaks this for the key \<^verbatim>\<open>__proto__\<close>, which the scanner accepts: with a
  variable of that name whose value is the empty string, the placeholder is removed from
  the text and a backup is stored, but the assignment \<^verbatim>\<open>snapshot[mm.key] = resolvedValue\<close>
  makes no property, and the key is not in the snapshot.
\<close>

theorem proto_key_missing_from_snapshot:
  "map (\<lambda>m. (mkey m, resolver ''Keywords'' exProtoHost (plainNode ''@__proto__!'') (mkey m)))
      (scanPlaceholders (characters (plainNode ''@__proto__!''))) = [(''__proto__'', Some [])]
   \<and> characters (nodeAfter (replacePlaceholdersInNode exState ''Keywords'' exProtoHost
        (plainNode ''@__proto__!''))) = ''!''
   \<and> map_option original (readNodeBackup (nodeAfter (replacePlaceholdersInNode exState ''Keywords''
        exProtoHost (plainNode ''@__proto__!'')))) = Some (Some ''@__proto__!'')
   \<and> persistedSnapshot (nodeAfter (replacePlaceholdersInNode exState ''Keywords'' exProtoHost
        (plainNode ''@__proto__!''))) ''__proto__'' = None"
  by code_simp

text \<open>
  For every other key the pass does what is expected of it. The text a substitution pass
  leaves is the text before it with every match whose key resolves replaced by the value
  and every match whose key is absent left as it was matched, character for character: the
  matched text of such a match stands in the text after the pass, at its offset before the
  pass moved by the net change of length of the matches before it. A key that is absent is
  not in the snapshot of the backup; a key that resolves to the empty string has its
  placeholder replaced by the empty string, so removed, and is in the snapshot, with the
  empty string as its value, unless it is \<^verbatim>\<open>__proto__\<close>.
\<close>

theorem unresolved_kept_empty_value_removed:
  "characters (nodeAfter (replacePlaceholdersInNode ps cn h node))
     = substituted (resolver cn h node) 0 (characters node) (scanPlaceholders (characters node))
   \<and> (\<forall>i < length (scanPlaceholders (characters node)).
        resolver cn h node (mkey (scanPlaceholders (characters node) ! i)) = None \<longrightarrow>
          take (mlen (scanPlaceholders (characters node) ! i))
            (drop (nat (int (mstart (scanPlaceholders (characters node) ! i))
                        + shiftBefore (resolver cn h node) (scanPlaceholders (characters node)) i))
               (characters (nodeAfter (replacePlaceholdersInNode ps cn h node))))
          = mtext (scanPlaceholders (characters node) ! i))
   \<and> (\<forall>m \<in> set (scanPlaceholders (characters node)).
        (resolver cn h node (mkey m) = None \<longrightarrow>
           persistedSnapshot (nodeAfter (replacePlaceholdersInNode ps cn h node)) (mkey m) = None)
      \<and> (resolver cn h node (mkey m) = Some [] \<longrightarrow>
           readNodeBackup (nodeAfter (replacePlaceholdersInNode ps cn h node)) \<noteq> None
           \<and> persistedSnapshot (nodeAfter (replacePlaceholdersInNode ps cn h node)) (mkey m)
               = (if mkey m = ''__proto__'' then None else Some [])))"
proof (intro conjI ballI impI allI)
  show "characters (nodeAfter (replacePlaceholdersInNode ps cn h node))
     = substituted (resolver cn h node) 0 (characters node) (scanPlaceholders (characters node))"
    by (rule replace_characters)
next
  fix i
  let ?ms = "scanPlaceholders (characters node)"
  assume i: "i < length ?ms" and r: "resolver cn h node (mkey (?ms ! i)) = None"
  have "length (mtext (?ms ! i)) = mlen (?ms ! i)"
    using wfMatches_mtext[OF scan_wf, of "?ms ! i" "characters node"] i by simp
  with substituted_at[OF scan_wf i, of "resolver cn h node"] r
  show "take (mlen (?ms ! i))
            (drop (nat (int (mstart (?ms ! i)) + shiftBefore (resolver cn h node) ?ms i))
               (characters (nodeAfter (replacePlaceholdersInNode ps cn h node))))
          = mtext (?ms ! i)"
    by (simp add: replace_characters piece_def)
next
  fix m assume m: "m \<in> set (scanPlaceholders (characters node))"
    and r: "resolver cn h node (mkey m) = None"
  show "persistedSnapshot (nodeAfter (replacePlaceholdersInNode ps cn h node)) (mkey m) = None"
  proof (cases "actionableMatches cn h node = []")
    case True
    then show ?thesis by (simp add: persistedSnapshot_def replace_unchanged cleared_node)
  next
    case False
    with r show ?thesis by (simp add: replace_snapshot)
  qed
next
  fix m assume m: "m \<in> set (scanPlaceholders (characters node))"
    and r: "resolver cn h node (mkey m) = Some []"
  then have A: "actionableMatches cn h node \<noteq> []"
    by (auto simp: actionableMatches_def resolvedMatches_empty_iff)
  show "readNodeBackup (nodeAfter (replacePlaceholdersInNode ps cn h node)) \<noteq> None"
    by (simp add: replace_backup[OF A])
  show "persistedSnapshot (nodeAfter (replacePlaceholdersInNode ps cn h node)) (mkey m)
      = (if mkey m = ''__proto__'' then None else Some [])"
    using m r by (simp add: replace_snapshot[OF A])
qed

theorem unresolved_kept_empty_value_removed_witness:
  "map (\<lambda>m. (mkey m, mstart m, resolver ''Keywords'' exHost (plainNode ''@a @missing @e.'') (mkey m)))
      (scanPlaceholders (characters (plainNode ''@a @missing @e.'')))
     = [(''a'', 0, Some ''XXXX''), (''missing'', 3, None), (''e'', 12, Some [])]
   \<and> characters (nodeAfter (replacePlaceholdersInNode exState ''Keywords'' exHost
        (plainNode ''@a @missing @e.''))) = ''XXXX @missing .''
   \<and> take 8 (drop (3 + 2) (characters (nodeAfter (replacePlaceholdersInNode exState ''Keywords'' exHost
        (plainNode ''@a @missing @e.''))))) = ''@missing''
   \<and> persistedSnapshot (nodeAfter (replacePlaceholdersInNode exState ''Keywords'' exHost
        (plainNode ''@a @missing @e.''))) ''missing'' = None
   \<and> persistedSnapshot (nodeAfter (replacePlaceholdersInNode exState ''Keywords'' exHost
        (plainNode ''@a @missing @e.''))) ''e'' = Some []"
proof -
  let ?n = "plainNode ''@a @missing @e.''"
  have r: "map (\<lambda>m. (mkey m, mstart m, resolver ''Keywords'' exHost ?n (mkey m)))
      (scanPlaceholders (characters ?n))
     = [(''a'', 0, Some ''XXXX''), (''missing'', 3, None), (''e'', 12, Some [])]"
    by code_simp
  have s: "substituted (resolver ''Keywords'' exHost ?n) 0 (characters ?n)
      (scanPlaceholders (characters ?n)) = ''XXXX @missing .''"
    by code_simp
  have m1: "\<lparr>mkey = ''missing'', mstart = 3, mlen = 8, mtext = ''@missing''\<rparr>
      \<in> set (scanPlaceholders (characters ?n))"
    by code_simp
  have m2: "\<lparr>mkey = ''e'', mstart = 12, mlen = 2, mtext = ''@e''\<rparr>
      \<in> set (scanPlaceholders (characters ?n))"
    by code_simp
  have r1: "resolver ''Keywords'' exHost ?n ''missing'' = None"
    by code_simp
  have r2: "resolver ''Keywords'' exHost ?n ''e'' = Some []"
    by code_simp
  note t = unresolved_kept_empty_value_removed [of exState "''Keywords''" exHost "plainNode ''@a @missing @e.''"]
  from t have c: "characters (nodeAfter (replacePlaceholdersInNode exState ''Keywords'' exHost ?n))
      = ''XXXX @missing .''"
    using s by simp
  from t m1 r1 have s1: "persistedSnapshot (nodeAfter (replacePlaceholdersInNode exState ''Keywords''
      exHost ?n)) ''missing'' = None"
    by fastforce
  from t m2 r2 have s2: "persistedSnapshot (nodeAfter (replacePlaceholdersInNode exState ''Keywords''
      exHost ?n)) ''e'' = Some []"
    by fastforce
  from r c s1 s2 show ?thesis
    by simp
qed

section \<open>The two evolutions\<close>

text \<open>
  Claim C9, as stated, fails: the two files do not scan the same matches. In
  \<^verbatim>\<open>src/code.js\<close> the dot is in the character class, so in \<^verbatim>\<open>@a.\<close> the key is
  \<^verbatim>\<open>a.\<close>, which is absent, and the text stays; in the offset-tracked evolution a dot
  only joins two segments, the key is \<^verbatim>\<open>a\<close> and the text becomes \<^verbatim>\<open>XXXX.\<close>.
\<close>

theorem evolutions_differ_on_trailing_dot:
  "map mkey (scanPlaceholders (characters (plainNode ''@a.''))) = [''a'']
   \<and> map mkey (scanPlaceholders_wt (characters (plainNode ''@a.''))) = [''a.'']
   \<and> characters (nodeAfter (replacePlaceholdersInNode exState ''Keywords'' exHost
        (plainNode ''@a.''))) = ''XXXX.''
   \<and> characters (nodeAfter (replacePlaceholdersInNode_wt ''Keywords'' exHost
        (plainNode ''@a.''))) = ''@a.''"
  by code_simp

text \<open>
  Claim C9, amended. On every element whose text the two scanners split into the same
  matches, and for every state of the resolver, the two evolutions leave the same text;
  the scanners agree on every text without a dot.
\<close>

theorem evolutions_agree_when_scans_agree:
  "(scanPlaceholders (characters node) = scanPlaceholders_wt (characters node) \<longrightarrow>
      characters (nodeAfter (replacePlaceholdersInNode ps cn h node))
        = characters (nodeAfter (replacePlaceholdersInNode_wt cn h node)))
   \<and> (CHR ''.'' \<notin> set (characters node) \<longrightarrow>
        scanPlaceholders (characters node) = scanPlaceholders_wt (characters node))"
  by (simp add: replace_characters replace_wt_characters scan_dotless)

theorem evolutions_agree_when_scans_agree_witness:
  "CHR ''.'' \<notin> set (characters (plainNode ''@a @missing @bb''))
   \<and> scanPlaceholders (characters (plainNode ''@a @missing @bb''))
       = scanPlaceholders_wt (characters (plainNode ''@a @missing @bb''))
   \<and> characters (nodeAfter (replacePlaceholdersInNode exState ''Keywords'' exHost
        (plainNode ''@a @missing @bb'')))
       = characters (nodeAfter (replacePlaceholdersInNode_wt ''Keywords'' exHost
        (plainNode ''@a @missing @bb'')))
   \<and> characters (nodeAfter (replacePlaceholdersInNode_wt ''Keywords'' exHost
        (plainNode ''@a @missing @bb''))) = ''XXXX @missing Y''"
proof -
  have d: "CHR ''.'' \<notin> set (characters (plainNode ''@a @missing @bb''))"
    by code_simp
  have c: "characters (nodeAfter (replacePlaceholdersInNode_wt ''Keywords'' exHost
        (plainNode ''@a @missing @bb''))) = ''XXXX @missing Y''"
    by code_simp
  from evolutions_agree_when_scans_agree [of "plainNode ''@a @missing @bb''" exState "''Keywords''" exHost]
    d c
  show ?thesis
    by simp
qed

section \<open>Resolution that fails\<close>

text \<open>
  Claim C5, as stated, fails: an exception inside \<^verbatim>\<open>resolveForConsumer\<close> does not give
  absent. The \<^verbatim>\<open>catch\<close> of \<^verbatim>\<open>resolveVariableValue\<close> returns the empty string, which is
  a value: the placeholder \<^verbatim>\<open>@boom\<close> is removed from the text and its key is recorded
  in the snapshot.
\<close>

theorem resolution_failure_gives_empty_string:
  "(case findStringVariable ''boom'' (passCollection ''Keywords'' exHost) (passHost ''Keywords'' exHost) of
      Some v \<Rightarrow> map_option (\<lambda>f. f (plainNode ''@boom!'')) (resolveForConsumer v)
    | None \<Rightarrow> None) = Some Throws
   \<and> resolver ''Keywords'' exHost (plainNode ''@boom!'') ''boom'' = Some []
   \<and> characters (nodeAfter (replacePlaceholdersInNode exState ''Keywords'' exHost (plainNode ''@boom!''))) = ''!''
   \<and> persistedSnapshot (nodeAfter (replacePlaceholdersInNode exState ''Keywords'' exHost (plainNode ''@boom!'')))
        ''boom'' = Some []"
  by code_simp

text \<open>
  Claim C5, amended. \<^verbatim>\<open>resolveVariableValue\<close> never throws, and no pass is stopped
  by an exception of the resolution. Take a match of a pass. When no variable
  of its key is found in the collection, the key resolves to absent and the placeholder is
  left untouched: its matched text stands in the text after the pass, at its offset before
  the pass moved by the net change of length of the matches before it. When the variable is
  found and its consumer-specific resolution throws, the \<^verbatim>\<open>try\<close> block throws, the
  exception is caught and the key resolves to the empty string, not to absent: the match is
  actionable, the pass returns \<open>changed = true\<close>, and the placeholder is replaced by
  the empty string.
\<close>

theorem resolve_failure_is_empty_value:
  assumes i: "i < length (scanPlaceholders (characters node))"
  shows "resolveVariableValue v c \<noteq> Throws
   \<and> fst (replacePlaceholdersInNode ps cn h node) \<noteq> Inl Uncaught
   \<and> characters (nodeAfter (replacePlaceholdersInNode ps cn h node))
       = substituted (resolver cn h node) 0 (characters node) (scanPlaceholders (characters node))
   \<and> (findStringVariable (mkey (scanPlaceholders (characters node) ! i))
          (passCollection cn h) (passHost cn h) = None \<longrightarrow>
        resolver cn h node (mkey (scanPlaceholders (characters node) ! i)) = None
        \<and> take (mlen (scanPlaceholders (characters node) ! i))
            (drop (nat (int (mstart (scanPlaceholders (characters node) ! i))
                        + shiftBefore (resolver cn h node) (scanPlaceholders (characters node)) i))
               (characters (nodeAfter (replacePlaceholdersInNode ps cn h node))))
          = mtext (scanPlaceholders (characters node) ! i))
   \<and> (findStringVariable (mkey (scanPlaceholders (characters node) ! i))
          (passCollection cn h) (passHost cn h) = Some v
        \<and> resolveForConsumer v = Some f \<and> f node = Throws \<longrightarrow>
        resolveVariableValue_try v (Some node) = Throws
        \<and> resolveVariableValue v (Some node) = Returns (JString [])
        \<and> resolver cn h node (mkey (scanPlaceholders (characters node) ! i)) = Some []
        \<and> piece (resolver cn h node) (scanPlaceholders (characters node) ! i) = []
        \<and> fst (replacePlaceholdersInNode ps cn h node)
            = Inr \<lparr>changed = True, res_snapshot = Some (persistedSnapshot
                     (nodeAfter (replacePlaceholdersInNode ps cn h node)))\<rparr>)"
proof (intro conjI impI)
  let ?ms = "scanPlaceholders (characters node)"
  show "resolveVariableValue v c \<noteq> Throws" by (rule resolveVariableValue_returns)
  show "fst (replacePlaceholdersInNode ps cn h node) \<noteq> Inl Uncaught"
    using replace_returns[of ps cn h node] by auto
  show "characters (nodeAfter (replacePlaceholdersInNode ps cn h node))
       = substituted (resolver cn h node) 0 (characters node) ?ms"
    by (rule replace_characters)
  {
    assume "findStringVariable (mkey (?ms ! i)) (passCollection cn h) (passHost cn h) = None"
    then show r: "resolver cn h node (mkey (?ms ! i)) = None"
      by (simp add: resolver_def valueIn_def resolvedValue_def)
    have "length (mtext (?ms ! i)) = mlen (?ms ! i)"
      using wfMatches_mtext[OF scan_wf, of "?ms ! i" "characters node"] i by simp
    with substituted_at[OF scan_wf i, of "resolver cn h node"] r
    show "take (mlen (?ms ! i))
            (drop (nat (int (mstart (?ms ! i)) + shiftBefore (resolver cn h node) ?ms i))
               (characters (nodeAfter (replacePlaceholdersInNode ps cn h node))))
          = mtext (?ms ! i)"
      by (simp add: replace_characters piece_def)
  }
  {
    assume a: "findStringVariable (mkey (?ms ! i)) (passCollection cn h) (passHost cn h) = Some v
        \<and> resolveForConsumer v = Some f \<and> f node = Throws"
    then show t: "resolveVariableValue_try v (Some node) = Throws"
      by (simp add: resolveVariableValue_try_def)
    then show v: "resolveVariableValue v (Some node) = Returns (JString [])"
      by (simp add: resolveVariableValue_def)
    with a show r: "resolver cn h node (mkey (?ms ! i)) = Some []"
      by (simp add: resolver_def valueIn_def resolvedValue_def)
    then show "piece (resolver cn h node) (?ms ! i) = []"
      by (simp add: piece_def)
    from r i have "actionableMatches cn h node \<noteq> []"
      by (auto simp: actionableMatches_def resolvedMatches_empty_iff)
    then show "fst (replacePlaceholdersInNode ps cn h node)
            = Inr \<lparr>changed = True, res_snapshot = Some (persistedSnapshot
                     (nodeAfter (replacePlaceholdersInNode ps cn h node)))\<rparr>"
      by (rule replace_result)
  }
qed

theorem resolve_failure_is_empty_value_witness:
  "map (\<lambda>m. (mkey m, mstart m, map_option var_name (findStringVariable (mkey m)
          (passCollection ''Keywords'' exHost) (passHost ''Keywords'' exHost)),
        resolver ''Keywords'' exHost (plainNode ''@zzz @boom!'') (mkey m)))
      (scanPlaceholders (characters (plainNode ''@zzz @boom!'')))
     = [(''zzz'', 0, None, None), (''boom'', 5, Some ''boom'', Some [])]
   \<and> characters (nodeAfter (replacePlaceholdersInNode exState ''Keywords'' exHost
        (plainNode ''@zzz @boom!''))) = ''@zzz !''
   \<and> take 4 (drop 0 (characters (nodeAfter (replacePlaceholdersInNode exState ''Keywords'' exHost
        (plainNode ''@zzz @boom!''))))) = ''@zzz''
   \<and> resolveVariableValue_try (throwingVar ''boom'') (Some (plainNode ''@zzz @boom!'')) = Throws
   \<and> resolveVariableValue (throwingVar ''boom'') (Some (plainNode ''@zzz @boom!''))
       = Returns (JString [])
   \<and> map_sum id changed (fst (replacePlaceholdersInNode exState ''Keywords'' exHost
        (plainNode ''@zzz @boom!''))) = Inr True"
proof -
  let ?n = "plainNode ''@zzz @boom!''"
  have sc: "map (\<lambda>m. (mkey m, mstart m, map_option var_name (findStringVariable (mkey m)
          (passCollection ''Keywords'' exHost) (passHost ''Keywords'' exHost)),
        resolver ''Keywords'' exHost ?n (mkey m))) (scanPlaceholders (characters ?n))
     = [(''zzz'', 0, None, None), (''boom'', 5, Some ''boom'', Some [])]"
    by code_simp
  have i0: "0 < length (scanPlaceholders (characters ?n))"
    by code_simp
  have i1: "1 < length (scanPlaceholders (characters ?n))"
    by code_simp
  have k0: "mkey (scanPlaceholders (characters ?n) ! 0) = ''zzz''"
    by code_simp
  have k1: "mkey (scanPlaceholders (characters ?n) ! 1) = ''boom''"
    by code_simp
  have "map_option var_name (findStringVariable ''zzz'' (passCollection ''Keywords'' exHost)
      (passHost ''Keywords'' exHost)) = None"
    by code_simp
  then have z: "findStringVariable ''zzz'' (passCollection ''Keywords'' exHost) (passHost ''Keywords'' exHost) = None"
    by simp
  have b: "findStringVariable ''boom'' (passCollection ''Keywords'' exHost) (passHost ''Keywords'' exHost)
      = Some (throwingVar ''boom'')"
    by (simp add: findStringVariable_def passCollection_def passHost_def getOrCreateCollection_def
          collectionArg_def exHost_def constVar_def throwingVar_def)
  have f: "resolveForConsumer (throwingVar ''boom'') = Some (\<lambda>n. Throws)"
    by (simp add: throwingVar_def)
  have s: "substituted (resolver ''Keywords'' exHost ?n) 0 (characters ?n)
      (scanPlaceholders (characters ?n)) = ''@zzz !''"
    by code_simp
  have m0: "mlen (scanPlaceholders (characters ?n) ! 0) = 4"
      "mtext (scanPlaceholders (characters ?n) ! 0) = ''@zzz''"
      "nat (int (mstart (scanPlaceholders (characters ?n) ! 0))
          + shiftBefore (resolver ''Keywords'' exHost ?n) (scanPlaceholders (characters ?n)) 0) = 0"
    by code_simp+
  from resolve_failure_is_empty_value [OF i0, of "throwingVar ''boom''" None exState "''Keywords''" exHost
      "\<lambda>n. Throws"] z k0 m0 s
  have r1: "characters (nodeAfter (replacePlaceholdersInNode exState ''Keywords'' exHost ?n)) = ''@zzz !''
      \<and> take 4 (drop 0 (characters (nodeAfter (replacePlaceholdersInNode exState ''Keywords'' exHost ?n))))
          = ''@zzz''"
    by simp
  from resolve_failure_is_empty_value [OF i1, of "throwingVar ''boom''" None exState "''Keywords''" exHost
      "\<lambda>n. Throws"] b f k1
  have r2: "resolveVariableValue_try (throwingVar ''boom'') (Some ?n) = Throws
      \<and> resolveVariableValue (throwingVar ''boom'') (Some ?n) = Returns (JString [])
      \<and> map_sum id changed (fst (replacePlaceholdersInNode exState ''Keywords'' exHost ?n)) = Inr True"
    by simp
  from sc r1 r2 show ?thesis
    by simp
qed

section \<open>Fonts of the inserted values\<close>



section \<open>Restoring once\<close>

text \<open>
  Claim C6, as stated, fails for the whole-text evolution of \<^verbatim>\<open>src/code.js\<close>, whose
  restoration keeps the backup (\<^verbatim>\<open>we don't clear it now\<close>, its comment says): a second
  call right after the first finds the backup and returns \<open>restored = true\<close> again.
\<close>

theorem whole_text_restore_twice:
  "readNodeBackup ((plainNode ''XXXX'')\<lparr>pluginData := Some staleBackup\<rparr>) \<noteq> None
   \<and> fst (restorePlaceholdersInNode_wt exHost ((plainNode ''XXXX'')\<lparr>pluginData := Some staleBackup\<rparr>))
       = \<lparr>restored = True\<rparr>
   \<and> characters (nodeAfter (restorePlaceholdersInNode_wt exHost
        ((plainNode ''XXXX'')\<lparr>pluginData := Some staleBackup\<rparr>))) = ''@a''
   \<and> map_option original (readNodeBackup (nodeAfter (restorePlaceholdersInNode_wt exHost
        ((plainNode ''XXXX'')\<lparr>pluginData := Some staleBackup\<rparr>)))) = Some (Some ''@a'')
   \<and> fst (restorePlaceholdersInNode_wt
        (hostAfter (restorePlaceholdersInNode_wt exHost
           ((plainNode ''XXXX'')\<lparr>pluginData := Some staleBackup\<rparr>)))
        (nodeAfter (restorePlaceholdersInNode_wt exHost
           ((plainNode ''XXXX'')\<lparr>pluginData := Some staleBackup\<rparr>))))
       = \<lparr>restored = True\<rparr>"
  by code_simp

text \<open>
  Claim C6, amended. In the offset-tracked evolution, when
  \<^verbatim>\<open>restorePlaceholdersInNode\<close> returns \<open>restored = true\<close>, the node it leaves has no
  backup, and a second call right after returns \<open>restored = false\<close> and changes
  neither the node nor the host. In the whole-text evolution a restoration from a backup
  with a non-empty \<^verbatim>\<open>original\<close> returns \<open>restored = true\<close>, sets the text to
  \<^verbatim>\<open>original\<close> and keeps the backup, and a second call right after does the same
  again. In both evolutions a call on a node without a backup returns
  \<open>restored = false\<close> and changes neither the node nor the host.
\<close>

theorem restore_one_shot_by_evolution:
  "(fst (restorePlaceholdersInNode h node) = Inr \<lparr>restored = True\<rparr> \<longrightarrow>
      readNodeBackup (nodeAfter (restorePlaceholdersInNode h node)) = None
      \<and> restorePlaceholdersInNode (hostAfter (restorePlaceholdersInNode h node))
            (nodeAfter (restorePlaceholdersInNode h node))
          = (Inr \<lparr>restored = False\<rparr>, nodeAfter (restorePlaceholdersInNode h node),
             hostAfter (restorePlaceholdersInNode h node)))
   \<and> (readNodeBackup node = None \<longrightarrow>
        restorePlaceholdersInNode h node = (Inr \<lparr>restored = False\<rparr>, node, h))
   \<and> (readNodeBackup node = Some b \<and> original b = Some (c # cs) \<longrightarrow>
        fst (restorePlaceholdersInNode_wt h node) = \<lparr>restored = True\<rparr>
        \<and> characters (nodeAfter (restorePlaceholdersInNode_wt h node)) = c # cs
        \<and> readNodeBackup (nodeAfter (restorePlaceholdersInNode_wt h node)) = Some b
        \<and> fst (restorePlaceholdersInNode_wt (hostAfter (restorePlaceholdersInNode_wt h node))
               (nodeAfter (restorePlaceholdersInNode_wt h node))) = \<lparr>restored = True\<rparr>
        \<and> characters (nodeAfter (restorePlaceholdersInNode_wt
               (hostAfter (restorePlaceholdersInNode_wt h node))
               (nodeAfter (restorePlaceholdersInNode_wt h node)))) = c # cs)
   \<and> (readNodeBackup node = None \<longrightarrow>
        restorePlaceholdersInNode_wt h node = (\<lparr>restored = False\<rparr>, node, h))"
proof (intro conjI impI)
  assume "fst (restorePlaceholdersInNode h node) = Inr \<lparr>restored = True\<rparr>"
  then show "readNodeBackup (nodeAfter (restorePlaceholdersInNode h node)) = None"
    and "restorePlaceholdersInNode (hostAfter (restorePlaceholdersInNode h node))
            (nodeAfter (restorePlaceholdersInNode h node))
          = (Inr \<lparr>restored = False\<rparr>, nodeAfter (restorePlaceholdersInNode h node),
             hostAfter (restorePlaceholdersInNode h node))"
    by (auto simp: restorePlaceholdersInNode_def readNodeBackup_def clearNodeBackup_def Let_def
          setCharacters_def split_beta nodeAfter_def hostAfter_def
          split: option.splits list.splits)
next
  assume "readNodeBackup node = None"
  then show "restorePlaceholdersInNode h node = (Inr \<lparr>restored = False\<rparr>, node, h)"
    by (simp add: restorePlaceholdersInNode_def)
next
  assume a: "readNodeBackup node = Some b \<and> original b = Some (c # cs)"
  have r1: "restorePlaceholdersInNode_wt h' n
      = (\<lparr>restored = True\<rparr>, setCharacters (c # cs) n, safeLoadFontsForNode n h')"
    if "readNodeBackup n = Some b" for h' n
    using that a by (simp add: restorePlaceholdersInNode_wt_def)
  have k: "readNodeBackup (setCharacters (c # cs) node) = Some b"
    using a by (simp add: readNodeBackup_def setCharacters_def)
  from a have b: "readNodeBackup node = Some b" by simp
  show "fst (restorePlaceholdersInNode_wt h node) = \<lparr>restored = True\<rparr>"
    and "characters (nodeAfter (restorePlaceholdersInNode_wt h node)) = c # cs"
    and "readNodeBackup (nodeAfter (restorePlaceholdersInNode_wt h node)) = Some b"
    and "fst (restorePlaceholdersInNode_wt (hostAfter (restorePlaceholdersInNode_wt h node))
               (nodeAfter (restorePlaceholdersInNode_wt h node))) = \<lparr>restored = True\<rparr>"
    and "characters (nodeAfter (restorePlaceholdersInNode_wt
               (hostAfter (restorePlaceholdersInNode_wt h node))
               (nodeAfter (restorePlaceholdersInNode_wt h node)))) = c # cs"
    by (simp_all add: r1[OF b] nodeAfter_def hostAfter_def k r1[OF k])
next
  assume "readNodeBackup node = None"
  then show "restorePlaceholdersInNode_wt h node = (\<lparr>restored = False\<rparr>, node, h)"
    by (simp add: restorePlaceholdersInNode_wt_def)
qed

theorem restore_one_shot_by_evolution_witness:
  "fst (restorePlaceholdersInNode exHost ((plainNode ''XXXX'')\<lparr>pluginData := Some staleBackup\<rparr>))
     = Inr \<lparr>restored = True\<rparr>
   \<and> characters (nodeAfter (restorePlaceholdersInNode exHost
        ((plainNode ''XXXX'')\<lparr>pluginData := Some staleBackup\<rparr>))) = ''@a''
   \<and> readNodeBackup (nodeAfter (restorePlaceholdersInNode exHost
        ((plainNode ''XXXX'')\<lparr>pluginData := Some staleBackup\<rparr>))) = None
   \<and> fst (restorePlaceholdersInNode
        (hostAfter (restorePlaceholdersInNode exHost
           ((plainNode ''XXXX'')\<lparr>pluginData := Some staleBackup\<rparr>)))
        (nodeAfter (restorePlaceholdersInNode exHost
           ((plainNode ''XXXX'')\<lparr>pluginData := Some staleBackup\<rparr>))))
     = Inr \<lparr>restored = False\<rparr>
   \<and> readNodeBackup (plainNode ''XXXX'') = None
   \<and> restorePlaceholdersInNode exHost (plainNode ''XXXX'')
     = (Inr \<lparr>restored = False\<rparr>, plainNode ''XXXX'', exHost)
   \<and> restorePlaceholdersInNode_wt exHost (plainNode ''XXXX'')
     = (\<lparr>restored = False\<rparr>, plainNode ''XXXX'', exHost)
   \<and> readNodeBackup ((plainNode ''XXXX'')\<lparr>pluginData := Some staleBackup\<rparr>) = Some staleBackup
   \<and> original staleBackup = Some ''@a''
   \<and> readNodeBackup (nodeAfter (restorePlaceholdersInNode_wt exHost
        ((plainNode ''XXXX'')\<lparr>pluginData := Some staleBackup\<rparr>))) = Some staleBackup
   \<and> fst (restorePlaceholdersInNode_wt
        (hostAfter (restorePlaceholdersInNode_wt exHost
           ((plainNode ''XXXX'')\<lparr>pluginData := Some staleBackup\<rparr>)))
        (nodeAfter (restorePlaceholdersInNode_wt exHost
           ((plainNode ''XXXX'')\<lparr>pluginData := Some staleBackup\<rparr>))))
     = \<lparr>restored = True\<rparr>
   \<and> characters (nodeAfter (restorePlaceholdersInNode_wt
        (hostAfter (restorePlaceholdersInNode_wt exHost
           ((plainNode ''XXXX'')\<lparr>pluginData := Some staleBackup\<rparr>)))
        (nodeAfter (restorePlaceholdersInNode_wt exHost
           ((plainNode ''XXXX'')\<lparr>pluginData := Some staleBackup\<rparr>))))) = ''@a''"
proof -
  let ?n = "(plainNode ''XXXX'')\<lparr>pluginData := Some staleBackup\<rparr>"
  have h: "fst (restorePlaceholdersInNode exHost ?n) = Inr \<lparr>restored = True\<rparr>"
    by code_simp
  have c: "characters (nodeAfter (restorePlaceholdersInNode exHost ?n)) = ''@a''"
    by code_simp
  have n: "readNodeBackup (plainNode ''XXXX'') = None"
    by (simp add: readNodeBackup_def plainNode_def)
  have b: "readNodeBackup ?n = Some staleBackup"
    by (simp add: readNodeBackup_def)
  have o: "original staleBackup = Some ''@a''"
    by (simp add: staleBackup_def)
  from restore_one_shot_by_evolution [of exHost ?n staleBackup "CHR ''@''" "''a''"]
    restore_one_shot_by_evolution [of exHost "plainNode ''XXXX''" staleBackup "CHR ''@''" "''a''"]
    h c n b o
  show ?thesis
    by simp
qed

section \<open>A backup with an empty list of records\<close>

text \<open>
  Claim C10. When the backup of a node has a \<^verbatim>\<open>replacements\<close> field that is an empty
  array, whatever its \<^verbatim>\<open>original\<close> field holds, restoration takes the branch of the
  records: it returns \<open>restored = true\<close>, clears the backup and leaves the content of
  the node, text and fonts, as it was (the legacy branch would have set the text to
  \<^verbatim>\<open>original\<close>).
\<close>

theorem empty_replacements_take_record_path:
  assumes "readNodeBackup node = Some b" and "replacements b = Some []"
  shows "fst (restorePlaceholdersInNode h node) = Inr \<lparr>restored = True\<rparr>
       \<and> readNodeBackup (nodeAfter (restorePlaceholdersInNode h node)) = None
       \<and> content (nodeAfter (restorePlaceholdersInNode h node)) = content node
       \<and> characters (nodeAfter (restorePlaceholdersInNode h node)) = characters node"
  using assms
  by (simp add: restorePlaceholdersInNode_def readNodeBackup_def clearNodeBackup_def Let_def
        sortDescending_def characters_def map_filter_simps nodeAfter_def)

theorem empty_replacements_take_record_path_witness:
  "readNodeBackup ((plainNode ''XXXX'')\<lparr>pluginData := Some emptyRecordsBackup\<rparr>)
     = Some emptyRecordsBackup
   \<and> replacements emptyRecordsBackup = Some []
   \<and> original emptyRecordsBackup = Some ''@a''
   \<and> fst (restorePlaceholdersInNode exHost
        ((plainNode ''XXXX'')\<lparr>pluginData := Some emptyRecordsBackup\<rparr>)) = Inr \<lparr>restored = True\<rparr>
   \<and> readNodeBackup (nodeAfter (restorePlaceholdersInNode exHost
        ((plainNode ''XXXX'')\<lparr>pluginData := Some emptyRecordsBackup\<rparr>))) = None
   \<and> characters (nodeAfter (restorePlaceholdersInNode exHost
        ((plainNode ''XXXX'')\<lparr>pluginData := Some emptyRecordsBackup\<rparr>))) = ''XXXX''"
proof -
  let ?n = "(plainNode ''XXXX'')\<lparr>pluginData := Some emptyRecordsBackup\<rparr>"
  have b: "readNodeBackup ?n = Some emptyRecordsBackup"
    by (simp add: readNodeBackup_def)
  have r: "replacements emptyRecordsBackup = Some []" "original emptyRecordsBackup = Some ''@a''"
    by (simp_all add: emptyRecordsBackup_def)
  have c: "characters ?n = ''XXXX''"
    by code_simp
  from empty_replacements_take_record_path [OF b r(1), of exHost] b r c show ?thesis
    by simp
qed

section \<open>The selection handler and the last focused element\<close>

lemma replace_keeps_document:
  "nodes (hostAfter (replacePlaceholdersInNode ps c h n)) = nodes h"
  "selection (hostAfter (replacePlaceholdersInNode ps c h n)) = selection h"
  by (auto simp: replacePlaceholdersInNode_def Let_def split_beta getOrCreateCollection_def
       safeLoadFontsForNode_def safeLoadFonts_def loadFontAsync_def hostAfter_def
       split: option.splits outcome.splits)

lemma restore_keeps_document:
  "nodes (hostAfter (restorePlaceholdersInNode h n)) = nodes h"
  "selection (hostAfter (restorePlaceholdersInNode h n)) = selection h"
  by (auto simp: restorePlaceholdersInNode_def Let_def split_beta hostAfter_def
       safeLoadFontsForNode_def safeLoadFonts_def split: option.splits list.splits)

lemma newId_isTextAt:
  "newId h = (case selection h of [i] \<Rightarrow> if isTextAt h i then Some i else None | _ \<Rightarrow> None)"
  by (auto simp: newId_def newSelectedNode_def isTextAt_def
        split: list.splits option.splits scene_node.splits)

lemma editFinish_keeps:
  "selection (editFinish ps h) = selection h"
  "isTextAt (editFinish ps h) i = isTextAt h i"
  using replace_keeps_document
  by (auto simp: editFinish_def isTextAt_def split_beta hostAfter_def
        split: option.splits scene_node.splits)

lemma editStart_keeps:
  "selection (editStart ps s h) = selection h"
  "isTextAt (editStart ps s h) i = isTextAt h i"
  using restore_keeps_document
  by (auto simp: editStart_def isTextAt_def split_beta hostAfter_def
        split: option.splits scene_node.splits)

text \<open>
  Claim C7, as stated, fails: with the feature flag off the handler returns before it
  updates \<^verbatim>\<open>lastSelectedNodeId\<close>. Here one text node is selected, the flag is off and no
  element was focused before; after the handler the last focused id is still \<open>None\<close>.
\<close>

theorem focus_not_updated_when_disabled:
  "\<not> featureEnabled (exState\<lparr>featureEnabled := False\<rparr>)
   \<and> newId exSelectedHost = Some ''1:2''
   \<and> lastSelectedNodeId (fst (handleSelectionChange (exState\<lparr>featureEnabled := False\<rparr>)
        exSelectedHost)) = None"
  by code_simp

text \<open>
  Claim C7, amended. When the feature flag is on and no pass is in progress, the handler
  leaves \<^verbatim>\<open>lastSelectedNodeId\<close> equal to the id of the single selected text element, or
  null when the selection is anything else, whether or not either pass ran or threw; that
  element is still the selection when the handler is done. When the flag is off, or a pass
  is in progress, the handler changes nothing, \<^verbatim>\<open>lastSelectedNodeId\<close> included.
\<close>

theorem focus_updated_when_enabled:
  "(featureEnabled ps \<and> \<not> processing ps \<longrightarrow>
      lastSelectedNodeId (fst (handleSelectionChange ps h)) = newId h
      \<and> newId (snd (handleSelectionChange ps h)) = newId h)
   \<and> (\<not> featureEnabled ps \<or> processing ps \<longrightarrow> handleSelectionChange ps h = (ps, h))"
proof -
  have "newId (editStart ps s (editFinish ps h)) = newId h" for s
    by (simp add: newId_isTextAt editFinish_keeps editStart_keeps split: list.splits)
  then show ?thesis
    by (simp add: handleSelectionChange_def Let_def)
qed

theorem focus_updated_when_enabled_witness:
  "featureEnabled exState \<and> \<not> processing exState
   \<and> lastSelectedNodeId (fst (handleSelectionChange exState exSelectedHost)) = Some ''1:2''
   \<and> featureEnabled (exState\<lparr>featureEnabled := False\<rparr>) = False
   \<and> handleSelectionChange (exState\<lparr>featureEnabled := False\<rparr>) exSelectedHost
       = (exState\<lparr>featureEnabled := False\<rparr>, exSelectedHost)"
proof -
  have e: "featureEnabled exState \<and> \<not> processing exState"
    by (simp add: exState_def)
  have i: "newId exSelectedHost = Some ''1:2''"
    by code_simp
  from focus_updated_when_enabled [of exState exSelectedHost]
       focus_updated_when_enabled [of "exState\<lparr>featureEnabled := False\<rparr>" exSelectedHost] e i
  show ?thesis
    by simp
qed

section \<open>The round trip\<close>

text \<open>
  Claim C1, as stated, fails. First, the engine captures one font for each placeholder,
  that of its first character, so a placeholder in two fonts comes back in one. Second,
  when a placeholder with an empty value is followed at once by another placeholder, both
  records have the same \<^verbatim>\<open>start\<close>, the stable sort keeps them in scan order, and the
  restored text is garbled: \<^verbatim>\<open>@e@bb!\<close> comes back as \<^verbatim>\<open>@bbeY!\<close>.
\<close>

theorem round_trip_not_exact:
  "map (\<lambda>m. resolver ''Keywords'' exHost twoFontNode (mkey m)) (scanPlaceholders (characters twoFontNode))
     = [Some ''XXXX'']
   \<and> content twoFontNode = [(CHR ''@'', exBold), (CHR ''a'', exRegular)]
   \<and> content (nodeAfter (roundTrip exState ''Keywords'' exHost twoFontNode))
       = [(CHR ''@'', exBold), (CHR ''a'', exBold)]
   \<and> exBold \<noteq> exRegular
   \<and> map (\<lambda>m. resolver ''Keywords'' exHost (plainNode ''@e@bb!'') (mkey m))
        (scanPlaceholders (characters (plainNode ''@e@bb!''))) = [Some [], Some ''Y'']
   \<and> characters (nodeAfter (replacePlaceholdersInNode exState ''Keywords'' exHost (plainNode ''@e@bb!''))) = ''Y!''
   \<and> fst (roundTrip exState ''Keywords'' exHost (plainNode ''@e@bb!'')) = Inr \<lparr>restored = True\<rparr>
   \<and> characters (nodeAfter (roundTrip exState ''Keywords'' exHost (plainNode ''@e@bb!''))) = ''@bbeY!''"
  by code_simp

text \<open>
  Claim C1, amended. Let no actionable placeholder with an empty value be followed at once
  by the next actionable placeholder. Then a substitution pass followed by a restoration
  leaves the text of the node as it was before the pass, with no backup, and the
  restoration returns \<open>restored = true\<close> when there was an actionable placeholder. If
  moreover every actionable placeholder is in one font, and that font is loaded once the
  fonts of the node have been loaded, the content of the node, text and fonts, is as it was
  before the pass.
\<close>

theorem round_trip_restores_text_and_fonts:
  assumes nt: "noEmptyValueBeforeAdjacent (actionableMatches cn h node)"
  shows "characters (nodeAfter (roundTrip ps cn h node)) = characters node
       \<and> readNodeBackup (nodeAfter (roundTrip ps cn h node)) = None
       \<and> (actionableMatches cn h node \<noteq> [] \<longrightarrow>
            fst (roundTrip ps cn h node) = Inr \<lparr>restored = True\<rparr>)
       \<and> ((\<forall>mv \<in> set (actionableMatches cn h node).
               uniformSpan node (mstart (fst mv)) (mlen (fst mv))
               \<and> fontAt node (mstart (fst mv)) \<in> loadedFonts (safeLoadFontsForNode node h)) \<longrightarrow>
            content (nodeAfter (roundTrip ps cn h node)) = content node)"
proof (cases "actionableMatches cn h node = []")
  case True
  have "roundTrip ps cn h node
      = (Inr \<lparr>restored = False\<rparr>, clearNodeBackup node, hostAfter (replacePlaceholdersInNode ps cn h node))"
    by (simp add: roundTrip_def replace_unchanged(2)[OF True] restorePlaceholdersInNode_def
          cleared_node)
  with True show ?thesis by (simp add: nodeAfter_def cleared_node)
next
  case False
  have "content (nodeAfter (roundTrip ps cn h node)) = content node"
    if "\<forall>mv \<in> set (actionableMatches cn h node).
               uniformSpan node (mstart (fst mv)) (mlen (fst mv))
               \<and> fontAt node (mstart (fst mv)) \<in> loadedFonts (safeLoadFontsForNode node h)"
    using round_trip_content(2)[OF False nt that, of ps] by (simp add: roundTrip_def)
  with round_trip_text[OF False nt, of ps] False show ?thesis
    by blast
qed

theorem round_trip_restores_text_and_fonts_witness:
  "map (\<lambda>mv. (mkey (fst mv), snd mv)) (actionableMatches ''Keywords'' exHost exStyledNode)
     = [(''a'', ''XXXX''), (''e'', []), (''icon/star'', ''*'')]
   \<and> noEmptyValueBeforeAdjacent (actionableMatches ''Keywords'' exHost exStyledNode)
   \<and> characters (nodeAfter (replacePlaceholdersInNode exState ''Keywords'' exHost exStyledNode))
       = ''XXXX and  *''
   \<and> content (nodeAfter (roundTrip exState ''Keywords'' exHost exStyledNode)) = content exStyledNode
   \<and> characters (nodeAfter (roundTrip exState ''Keywords'' exHost exStyledNode))
       = ''@a and @e @icon/star''
   \<and> fst (roundTrip exState ''Keywords'' exHost exStyledNode) = Inr \<lparr>restored = True\<rparr>"
proof -
  have a: "map (\<lambda>mv. (mkey (fst mv), snd mv)) (actionableMatches ''Keywords'' exHost exStyledNode)
     = [(''a'', ''XXXX''), (''e'', []), (''icon/star'', ''*'')]"
    by code_simp
  have nt: "noEmptyValueBeforeAdjacent (actionableMatches ''Keywords'' exHost exStyledNode)"
    by code_simp
  have un: "\<forall>mv \<in> set (actionableMatches ''Keywords'' exHost exStyledNode).
               uniformSpan exStyledNode (mstart (fst mv)) (mlen (fst mv))
               \<and> fontAt exStyledNode (mstart (fst mv))
                   \<in> loadedFonts (safeLoadFontsForNode exStyledNode exHost)"
    by code_simp
  have c: "characters (nodeAfter (replacePlaceholdersInNode exState ''Keywords'' exHost exStyledNode))
       = ''XXXX and  *''"
    by code_simp
  have o: "characters exStyledNode = ''@a and @e @icon/star''"
    by code_simp
  from a have ne: "actionableMatches ''Keywords'' exHost exStyledNode \<noteq> []"
    by auto
  from round_trip_restores_text_and_fonts [OF nt, of exState] a nt un c o ne show ?thesis
    by simp
qed

end
